theory Spec2Isabelle
  imports Main
begin

section \<open>Text: Python strings over the code points below 256\<close>

text \<open>
  A Python \<^verbatim>\<open>str\<close> is a sequence of code points. The model is \<^typ>\<open>string\<close>, one
  \<^typ>\<open>char\<close> per code point, so it covers the texts whose code points lie in
  U+0000..U+00FF (ASCII and the Latin-1 supplement, which holds the accented letters of
  the Spanish vocabulary). The character classes below are the ones Python 3 uses on that
  range: \<^verbatim>\<open>str.isspace\<close> and the regular expression class \<^verbatim>\<open>\s\<close>, \<^verbatim>\<open>\d\<close>, \<^verbatim>\<open>\w\<close>,
  \<^verbatim>\<open>str.isalpha\<close>, \<^verbatim>\<open>str.lower\<close> and the line boundaries of \<^verbatim>\<open>str.splitlines\<close>.
\<close>

definition newline :: char where
  "newline = CHR 0x0A"

definition is_space :: "char \<Rightarrow> bool" where
  "is_space c = (let n = (of_char c :: nat) in
     (9 \<le> n \<and> n \<le> 13) \<or> (28 \<le> n \<and> n \<le> 32) \<or> n = 133 \<or> n = 160)"

definition is_digit :: "char \<Rightarrow> bool" where
  "is_digit c = (let n = (of_char c :: nat) in 48 \<le> n \<and> n \<le> 57)"

definition is_alpha :: "char \<Rightarrow> bool" where
  "is_alpha c = (let n = (of_char c :: nat) in
     (65 \<le> n \<and> n \<le> 90) \<or> (97 \<le> n \<and> n \<le> 122) \<or> n = 170 \<or> n = 181 \<or> n = 186 \<or>
     (192 \<le> n \<and> n \<le> 214) \<or> (216 \<le> n \<and> n \<le> 246) \<or> (248 \<le> n \<and> n \<le> 255))"

definition is_word :: "char \<Rightarrow> bool" where
  "is_word c = (let n = (of_char c :: nat) in
     is_alpha c \<or> is_digit c \<or> n = 95 \<or> n = 178 \<or> n = 179 \<or> n = 185 \<or>
     (188 \<le> n \<and> n \<le> 190))"

definition is_linebreak :: "char \<Rightarrow> bool" where
  "is_linebreak c = (let n = (of_char c :: nat) in
     (10 \<le> n \<and> n \<le> 13) \<or> (28 \<le> n \<and> n \<le> 30) \<or> n = 133)"

definition lower_char :: "char \<Rightarrow> char" where
  "lower_char c = (let n = (of_char c :: nat) in
     if (65 \<le> n \<and> n \<le> 90) \<or> (192 \<le> n \<and> n \<le> 214) \<or> (216 \<le> n \<and> n \<le> 222)
     then char_of (n + 32) else c)"

text \<open>\<^verbatim>\<open>s.lower()\<close>, \<^verbatim>\<open>s.strip()\<close>, \<^verbatim>\<open>s.isalpha()\<close>, \<^verbatim>\<open>s.count(c)\<close> and \<^verbatim>\<open>s.endswith(c)\<close>
  for a one-character \<^verbatim>\<open>c\<close>.\<close>

definition str_lower :: "string \<Rightarrow> string" where
  "str_lower s = map lower_char s"

definition str_strip :: "string \<Rightarrow> string" where
  "str_strip s = rev (dropWhile is_space (rev (dropWhile is_space s)))"

definition str_isalpha :: "string \<Rightarrow> bool" where
  "str_isalpha s = (s \<noteq> [] \<and> list_all is_alpha s)"

definition str_count :: "string \<Rightarrow> char \<Rightarrow> nat" where
  "str_count s c = length (filter (\<lambda>x. x = c) s)"

definition str_endswith :: "string \<Rightarrow> char \<Rightarrow> bool" where
  "str_endswith s c = (s \<noteq> [] \<and> last s = c)"

text \<open>\<^verbatim>\<open>s.split()\<close> without argument: the maximal runs of non-whitespace characters.
  The first argument is the word being read.\<close>

fun split_ws :: "string \<Rightarrow> string \<Rightarrow> string list" where
  "split_ws w [] = (if w = [] then [] else [w])"
| "split_ws w (c # cs) =
     (if is_space c then (if w = [] then split_ws [] cs else w # split_ws [] cs)
      else split_ws (w @ [c]) cs)"

definition str_split :: "string \<Rightarrow> string list" where
  "str_split s = split_ws [] s"

text \<open>\<^verbatim>\<open>s.split(sep)\<close> for a one-character separator: empty pieces are kept.\<close>

fun split_at :: "char \<Rightarrow> string \<Rightarrow> string \<Rightarrow> string list" where
  "split_at sep w [] = [w]"
| "split_at sep w (c # cs) =
     (if c = sep then w # split_at sep [] cs else split_at sep (w @ [c]) cs)"

definition str_split_on :: "char \<Rightarrow> string \<Rightarrow> string list" where
  "str_split_on sep s = split_at sep [] s"

text \<open>\<^verbatim>\<open>s.splitlines()\<close>: a carriage return followed by a line feed is one boundary, and
  a boundary at the very end opens no further line.\<close>

fun splitlines_from :: "string \<Rightarrow> string \<Rightarrow> string list" where
  "splitlines_from w [] = (if w = [] then [] else [w])"
| "splitlines_from w [c] = (if is_linebreak c then [w] else [w @ [c]])"
| "splitlines_from w (c # d # cs) =
     (if c = CHR 0x0D \<and> d = CHR 0x0A then w # splitlines_from [] cs
      else if is_linebreak c then w # splitlines_from [] (d # cs)
      else splitlines_from (w @ [c]) (d # cs))"

definition str_splitlines :: "string \<Rightarrow> string list" where
  "str_splitlines s = splitlines_from [] s"

text \<open>\<^verbatim>\<open>sep.join(xs)\<close>.\<close>

fun str_join :: "string \<Rightarrow> string list \<Rightarrow> string" where
  "str_join sep [] = []"
| "str_join sep [x] = x"
| "str_join sep (x # y # xs) = x @ sep @ str_join sep (y # xs)"

section \<open>Regular expressions with the matching order of Python's \<^verbatim>\<open>re\<close>\<close>

text \<open>
  A pattern is a syntax tree; \<open>ms r s i\<close> lists the positions at which a match of \<open>r\<close>
  that starts at position \<open>i\<close> of \<open>s\<close> can end, in the order in which a backtracking
  matcher tries them: the left alternative first, and a repetition as long as possible
  first. \<open>Bos\<close> is \<^verbatim>\<open>^\<close>, \<open>Eos\<close> is \<^verbatim>\<open>$\<close> (the end, or just before a line feed that ends the
  string), \<open>Wordb\<close> is \<^verbatim>\<open>\b\<close>. No pattern of the program repeats an expression that can
  match the empty string; the repetition keeps only the iterations that consume something.
\<close>

datatype regex =
    Atom "char \<Rightarrow> bool"
  | Eps
  | Bos
  | Eos
  | Wordb
  | Seq regex regex
  | Alt regex regex
  | Star regex

definition word_at :: "string \<Rightarrow> nat \<Rightarrow> bool" where
  "word_at s i = (i < length s \<and> is_word (s ! i))"

function ms :: "regex \<Rightarrow> string \<Rightarrow> nat \<Rightarrow> nat list" where
  "ms (Atom P) s i = (if i < length s \<and> P (s ! i) then [Suc i] else [])"
| "ms Eps s i = [i]"
| "ms Bos s i = (if i = 0 then [i] else [])"
| "ms Eos s i = (if i = length s \<or> (Suc i = length s \<and> s ! i = newline) then [i] else [])"
| "ms Wordb s i = (if (0 < i \<and> word_at s (i - 1)) \<noteq> word_at s i then [i] else [])"
| "ms (Seq a b) s i = concat (map (ms b s) (ms a s i))"
| "ms (Alt a b) s i = ms a s i @ ms b s i"
| "ms (Star a) s i =
     concat (map (ms (Star a) s) (filter (\<lambda>j. i < j \<and> j \<le> length s) (ms a s i))) @ [i]"
  by pat_completeness auto
termination
  by (relation "measures [\<lambda>(r, s, i). size r, \<lambda>(r, s, i). length s - i]") auto

definition Opt :: "regex \<Rightarrow> regex" where
  "Opt a = Alt a Eps"

definition Plus :: "regex \<Rightarrow> regex" where
  "Plus a = Seq a (Star a)"

text \<open>Atoms: a literal character, a character set \<^verbatim>\<open>[...]\<close>, both also under
  \<^verbatim>\<open>re.IGNORECASE\<close>, the classes \<^verbatim>\<open>\d\<close> and \<^verbatim>\<open>\s\<close>, the dot (anything but a line feed)
  and \<^verbatim>\<open>[\s\S]\<close>.

  Under \<^verbatim>\<open>re.IGNORECASE\<close> two characters match when their lower-case forms agree; on the
  code points below U+0100 that is all there is, and \<open>lit_i\<close> and \<open>cls_i\<close> say so. Beyond
  U+00FF Python knows further equivalences, which the model leaves out with those code
  points: a pattern letter \<^verbatim>\<open>s\<close> also matches U+017F (long s), \<^verbatim>\<open>i\<close> also matches U+0130 and
  U+0131 (dotted capital and dotless i), \<^verbatim>\<open>k\<close> also matches U+212A (the Kelvin sign), while
  \<^verbatim>\<open>str.lower\<close> maps none of U+017F, U+0130, U+0131 to the ASCII letter. A statement below
  that relates a pattern under \<^verbatim>\<open>re.IGNORECASE\<close> to \<^verbatim>\<open>str.lower\<close> therefore speaks of the lines
  over U+0000..U+00FF only.\<close>

definition lit :: "char \<Rightarrow> regex" where
  "lit c = Atom (\<lambda>x. x = c)"

definition lit_i :: "char \<Rightarrow> regex" where
  "lit_i c = Atom (\<lambda>x. lower_char x = lower_char c)"

definition cls :: "string \<Rightarrow> regex" where
  "cls cs = Atom (\<lambda>x. x \<in> set cs)"

definition cls_i :: "string \<Rightarrow> regex" where
  "cls_i cs = Atom (\<lambda>x. lower_char x \<in> set (map lower_char cs))"

definition digit :: regex where
  "digit = Atom is_digit"

definition space :: regex where
  "space = Atom is_space"

definition dot :: regex where
  "dot = Atom (\<lambda>x. x \<noteq> newline)"

definition anychar :: regex where
  "anychar = Atom (\<lambda>x. True)"

text \<open>A literal string under \<^verbatim>\<open>re.IGNORECASE\<close>, and an alternation \<^verbatim>\<open>(a|b|...)\<close> of
  such strings.\<close>

fun str_i :: "string \<Rightarrow> regex" where
  "str_i [] = Eps"
| "str_i (c # cs) = Seq (lit_i c) (str_i cs)"

fun alts_i :: "string list \<Rightarrow> regex" where
  "alts_i [] = Atom (\<lambda>x. False)"
| "alts_i [w] = str_i w"
| "alts_i (w # v # ws) = Alt (str_i w) (alts_i (v # ws))"

text \<open>
  \<^verbatim>\<open>pattern.match(s)\<close>, \<^verbatim>\<open>pattern.search(s)\<close> and \<^verbatim>\<open>re.fullmatch(pattern, s)\<close> return the
  span of the match, \<open>None\<close> when there is none; \<^verbatim>\<open>search\<close> tries the start positions
  from left to right. \<open>re_match_group\<close> is \<^verbatim>\<open>match\<close> for a pattern of the form
  \<^verbatim>\<open>pre(grp)post\<close> and returns the text of the group: the first end of the group, in the
  order of the matcher, after which the rest of the pattern matches.
\<close>

definition re_match :: "regex \<Rightarrow> string \<Rightarrow> (nat \<times> nat) option" where
  "re_match r s = (case ms r s 0 of [] \<Rightarrow> None | j # _ \<Rightarrow> Some (0, j))"

fun first_match :: "regex \<Rightarrow> string \<Rightarrow> nat list \<Rightarrow> (nat \<times> nat) option" where
  "first_match r s [] = None"
| "first_match r s (i # starts) =
     (case ms r s i of [] \<Rightarrow> first_match r s starts | j # _ \<Rightarrow> Some (i, j))"

definition re_search :: "regex \<Rightarrow> string \<Rightarrow> (nat \<times> nat) option" where
  "re_search r s = first_match r s [0 ..< Suc (length s)]"

definition re_fullmatch :: "regex \<Rightarrow> string \<Rightarrow> (nat \<times> nat) option" where
  "re_fullmatch r s = (if length s \<in> set (ms r s 0) then Some (0, length s) else None)"

fun first_end :: "regex \<Rightarrow> string \<Rightarrow> nat list \<Rightarrow> nat option" where
  "first_end post s [] = None"
| "first_end post s (e # ends) = (if ms post s e = [] then first_end post s ends else Some e)"

fun first_span :: "regex \<Rightarrow> regex \<Rightarrow> string \<Rightarrow> nat list \<Rightarrow> (nat \<times> nat) option" where
  "first_span grp post s [] = None"
| "first_span grp post s (b # starts) =
     (case first_end post s (ms grp s b) of
        None \<Rightarrow> first_span grp post s starts
      | Some e \<Rightarrow> Some (b, e))"

definition re_match_group :: "regex \<Rightarrow> regex \<Rightarrow> regex \<Rightarrow> string \<Rightarrow> string option" where
  "re_match_group pre grp post s =
     (case first_span grp post s (ms pre s 0) of
        None \<Rightarrow> None
      | Some (b, e) \<Rightarrow> Some (take (e - b) (drop b s)))"

text \<open>\<^verbatim>\<open>re.sub(pattern, repl, s)\<close> for a pattern that matches no empty string: the
  leftmost matches, each as the matcher finds it first, are replaced from left to right.\<close>

function re_sub_from :: "regex \<Rightarrow> string \<Rightarrow> string \<Rightarrow> nat \<Rightarrow> string" where
  "re_sub_from r repl s i =
     (if length s \<le> i then []
      else (case ms r s i of
              [] \<Rightarrow> s ! i # re_sub_from r repl s (Suc i)
            | j # _ \<Rightarrow> if i < j then repl @ re_sub_from r repl s j
                       else s ! i # re_sub_from r repl s (Suc i)))"
  by pat_completeness auto
termination
  by (relation "measure (\<lambda>(r, repl, s, i). length s - i)") auto

definition re_sub :: "regex \<Rightarrow> string \<Rightarrow> string \<Rightarrow> string" where
  "re_sub r repl s = re_sub_from r repl s 0"

section \<open>The section extractor (\<^verbatim>\<open>PDFSectionExtractor\<close>)\<close>

subsection \<open>Patterns\<close>

text \<open>The letters outside ASCII that the patterns and vocabularies name.\<close>

definition a_acute :: char where "a_acute = CHR 0xE1"
definition e_acute :: char where "e_acute = CHR 0xE9"
definition i_acute :: char where "i_acute = CHR 0xED"
definition o_acute :: char where "o_acute = CHR 0xF3"
definition u_acute :: char where "u_acute = CHR 0xFA"
definition n_tilde :: char where "n_tilde = CHR 0xF1"

definition metodologia :: string where
  "metodologia = ''metodolog'' @ [i_acute] @ ''a''"

definition discusion :: string where
  "discusion = ''discusi'' @ [o_acute] @ ''n''"

text \<open>\<^verbatim>\<open>SECTION_NUMBER_PATTERN = \d+(?:\.\d+)*|[IVXLCDM]+\<close>; every pattern that embeds it
  is compiled with \<^verbatim>\<open>re.IGNORECASE\<close>.\<close>

definition SECTION_NUMBER_PATTERN :: regex where
  "SECTION_NUMBER_PATTERN =
     Alt (Seq (Plus digit) (Star (Seq (lit CHR ''.'') (Plus digit)))) (Plus (cls_i ''IVXLCDM''))"

text \<open>The set after the heading word: whitespace, colon, hyphen. The dash U+2014 of the
  source's set lies outside the code points
  of the model, so it is no member here.\<close>

definition heading_sep :: regex where
  "heading_sep = Atom (\<lambda>x. is_space x \<or> x = CHR '':'' \<or> x = CHR ''-'')"

definition RE_ABSTRACT :: regex where
  "RE_ABSTRACT = Seq Bos (Seq (alts_i [''abstract'', ''resumen'']) heading_sep)"

definition RE_KEYWORDS :: regex where
  "RE_KEYWORDS =
     Seq Bos (Seq (alts_i [''keywords'', ''index terms'', ''palabras clave'']) heading_sep)"

text \<open>\<^verbatim>\<open>RE_SECTION = ^(NUMBER)[\.\)]?\s+.+\<close>, cut at its group.\<close>

definition SECTION_TAIL :: regex where
  "SECTION_TAIL = Seq (Opt (cls ''.)'')) (Seq (Plus space) (Plus dot))"

definition RE_SECTION :: regex where
  "RE_SECTION = Seq Bos (Seq SECTION_NUMBER_PATTERN SECTION_TAIL)"

definition RE_SECTION_NUMBER_ONLY :: regex where
  "RE_SECTION_NUMBER_ONLY = Seq Bos (Seq SECTION_NUMBER_PATTERN (Seq (Opt (cls ''.)'')) Eos))"

definition RE_REFERENCES :: regex where
  "RE_REFERENCES = Seq Bos (Seq (alts_i [''references'', ''referencias'']) (Seq (Star space) Eos))"

definition RE_FIGURE_CAPTION :: regex where
  "RE_FIGURE_CAPTION =
     Seq Bos (Seq (alts_i [''fig'', ''figure'']) (Seq (Opt (lit CHR ''.'')) (Seq (Star space)
       (Seq (Plus digit) (Seq (Opt (cls ''.:'')) (Seq (Plus space) (Plus dot)))))))"

definition RE_TABLE_CAPTION :: regex where
  "RE_TABLE_CAPTION =
     Seq Bos (Seq (str_i ''table'') (Seq (Star space)
       (Seq (Plus digit) (Seq (Opt (cls ''.:'')) (Seq (Plus space) (Plus dot))))))"

definition RE_EQUATION :: regex where
  "RE_EQUATION =
     Seq Bos (Seq (Opt (lit CHR ''('')) (Seq (Plus digit) (Seq (Opt (lit CHR '')'')) Eos)))"

definition RE_FIGURE_INLINE :: regex where
  "RE_FIGURE_INLINE =
     Seq Bos (Seq (alts_i [''fig'', ''figure'']) (Seq (Opt (lit CHR ''.'')) (Seq (Star space)
       (Plus digit))))"

definition RE_TABLE_INLINE :: regex where
  "RE_TABLE_INLINE = Seq Bos (Seq (str_i ''table'') (Seq (Star space) (Plus digit)))"

text \<open>The set of \<^verbatim>\<open>RE_AUTHOR\<close>: a to z and the six accented letters, under \<^verbatim>\<open>re.IGNORECASE\<close>.\<close>

definition author_letter :: regex where
  "author_letter = Atom (\<lambda>x. let n = (of_char (lower_char x) :: nat) in
     (97 \<le> n \<and> n \<le> 122) \<or>
     lower_char x \<in> set [a_acute, e_acute, i_acute, o_acute, u_acute, n_tilde])"

definition author_word :: regex where
  "author_word = Seq (Plus space) (Plus author_letter)"

definition RE_AUTHOR :: regex where
  "RE_AUTHOR =
     Seq Bos (Seq (Plus author_letter)
       (Seq (Seq author_word (Opt (Seq author_word (Opt author_word)))) Eos))"

definition SECTION_TEXT_VOCABULARY :: "string list" where
  "SECTION_TEXT_VOCABULARY =
     [''introduction'', ''background'', ''related work'', ''methodology'', ''methods'',
      ''dataset'', ''data'', ''experiments'', ''results'', ''discussion'', ''conclusion'',
      ''future work'', ''materials and methods'',
      ''trabajo relacionado'', metodologia, ''resultados'', discusion]"

text \<open>The last alternative of the source is \<^verbatim>\<open>conclusiones?\<close>: the question mark binds
  to the final letter only.\<close>

definition RE_SECTION_TEXT_ONLY :: regex where
  "RE_SECTION_TEXT_ONLY =
     Seq Bos (Seq (Alt (alts_i SECTION_TEXT_VOCABULARY)
                       (Seq (str_i ''conclusione'') (Opt (lit_i CHR ''s''))))
                  Eos)"

definition RE_URL :: regex where
  "RE_URL = Alt (Seq (str_i ''http'') (Seq (Opt (lit_i CHR ''s'')) (str_i ''://'')))
                (str_i ''www.'')"

definition RE_RQ_HEADER :: regex where
  "RE_RQ_HEADER =
     Seq Bos (Seq (Plus digit) (Seq (lit CHR ''.'') (Seq (Plus space) (Seq (str_i ''rq'')
       (Seq (Plus digit) (Seq (Star space) (lit CHR '':'')))))))"

subsection \<open>Semantic lists\<close>

definition NON_SECTION_KEYWORDS :: "string list" where
  "NON_SECTION_KEYWORDS =
     [''figure'', ''fig'', ''table'', ''equation'', ''eq'', ''algorithm'', ''source'', ''note'']"

definition VALID_SECTION_STARTERS :: "string list" where
  "VALID_SECTION_STARTERS =
     [''introduction'', ''background'', ''related'', ''method'', ''methods'',
      ''methodology'', ''experiment'', ''experiments'', ''results'',
      ''discussion'', ''conclusion'', ''future'', ''dataset'', ''data'',
      ''materials'', ''evaluation'', ''trabajo'', metodologia,
      ''resultados'', discusion, ''conclusiones'']"

subsection \<open>Helpers\<close>

datatype error = IndexError

definition numeric_depth :: "string \<Rightarrow> nat" where
  "numeric_depth number = str_count number CHR ''.'' + 1"

definition looks_like_caption :: "string \<Rightarrow> bool" where
  "looks_like_caption line =
     (let words = str_split (str_lower line) in
      if 10 < length words then True
      else if list_ex (\<lambda>w. w \<in> set NON_SECTION_KEYWORDS) words then True
      else if str_endswith line CHR ''.'' then True
      else False)"

text \<open>\<^verbatim>\<open>line.lower().split()[0]\<close> raises \<^verbatim>\<open>IndexError\<close> when the line has no word.\<close>

definition looks_like_section :: "string \<Rightarrow> error + bool" where
  "looks_like_section line =
     (case str_split (str_lower line) of
        [] \<Rightarrow> Inl IndexError
      | first_word # _ \<Rightarrow> Inr (first_word \<in> set VALID_SECTION_STARTERS))"

subsection \<open>Line classification\<close>

datatype label =
  References | Noise | Abstract | Keywords | Section_number | Section | Subsection | Content

definition matched :: "'a option \<Rightarrow> bool" where
  "matched m = (m \<noteq> None)"

definition classify_line :: "string \<Rightarrow> error + label" where
  "classify_line line =
     (if matched (re_match RE_REFERENCES line) then Inr References
      else if matched (re_match RE_FIGURE_CAPTION line)
            \<or> matched (re_match RE_TABLE_CAPTION line)
            \<or> matched (re_match RE_FIGURE_INLINE line)
            \<or> matched (re_match RE_TABLE_INLINE line)
            \<or> matched (re_match RE_EQUATION line) then Inr Noise
      else if matched (re_match RE_RQ_HEADER line) then Inr Section
      else if matched (re_search RE_URL line) then Inr Noise
      else if matched (re_match RE_ABSTRACT line) then Inr Abstract
      else if matched (re_match RE_KEYWORDS line) then Inr Keywords
      else if matched (re_match RE_SECTION_NUMBER_ONLY line) then Inr Section_number
      else (case re_match_group Bos SECTION_NUMBER_PATTERN SECTION_TAIL line of
              Some number \<Rightarrow>
                if looks_like_caption line then Inr Noise
                else if str_isalpha number then Inr Section
                else Inr (if numeric_depth number = 1 then Section else Subsection)
            | None \<Rightarrow>
                if matched (re_match RE_SECTION_TEXT_ONLY line) then
                  (case looks_like_section line of
                     Inl e \<Rightarrow> Inl e
                   | Inr ok \<Rightarrow> if \<not> ok then Inr Noise else Inr Section)
                else Inr Content))"

subsection \<open>The extractor and its section nodes\<close>

datatype node_type = Preamble_node | Section_node | Subsection_node

record node =
  node_type :: node_type
  header :: "string option"
  content :: "string list"

record extractor =
  raw_text :: string
  lines :: "string list"
  title :: string
  authors :: string
  sections :: "node list"

definition prepare_lines :: "string \<Rightarrow> string list" where
  "prepare_lines text =
     map str_strip (filter (\<lambda>line. str_strip line \<noteq> []) (str_splitlines text))"

definition new_extractor :: "string \<Rightarrow> extractor" where
  "new_extractor text =
     \<lparr>raw_text = text, lines = prepare_lines text, title = [], authors = [], sections = []\<rparr>"

subsection \<open>Title and authors\<close>

text \<open>The scan over the first lines: it stops at the first abstract or section line.\<close>

fun scan_title :: "string list \<Rightarrow> string list \<Rightarrow> string list
    \<Rightarrow> error + (string list \<times> string list)" where
  "scan_title title_lines auths [] = Inr (title_lines, auths)"
| "scan_title title_lines auths (line # rest) =
     (case classify_line line of
        Inl e \<Rightarrow> Inl e
      | Inr l \<Rightarrow>
          if l = Abstract \<or> l = Section then Inr (title_lines, auths)
          else if matched (re_match RE_AUTHOR line) \<and> title_lines \<noteq> []
          then scan_title title_lines (auths @ [line]) rest
          else scan_title (title_lines @ [line]) auths rest)"

definition detect_title_and_authors :: "nat \<Rightarrow> extractor \<Rightarrow> error + extractor" where
  "detect_title_and_authors scan_limit self =
     (case scan_title [] [] (take scan_limit (lines self)) of
        Inl e \<Rightarrow> Inl e
      | Inr (title_lines, auths) \<Rightarrow>
          Inr (self\<lparr>title := str_strip (str_join '' '' title_lines),
                    authors := str_join '', '' auths\<rparr>))"

subsection \<open>Section construction\<close>

text \<open>
  The state of the loop of \<^verbatim>\<open>build_sections\<close>: the nodes appended so far, the open node
  \<^verbatim>\<open>current\<close> and \<^verbatim>\<open>pending_section_number\<close>. \<open>build_step\<close> is one pass through the loop
  body; it returns \<open>None\<close> at the \<^verbatim>\<open>break\<close>.
\<close>

type_synonym build_state = "node list \<times> node \<times> string option"

definition section_header :: "string option \<Rightarrow> string \<Rightarrow> string" where
  "section_header pending line =
     (case pending of
        None \<Rightarrow> line
      | Some number \<Rightarrow> if number \<noteq> [] then number @ '' '' @ line else line)"

definition build_step :: "build_state \<Rightarrow> string \<Rightarrow> error + build_state option" where
  "build_step st line =
     (case st of (secs, current, pending) \<Rightarrow>
       (case classify_line line of
          Inl e \<Rightarrow> Inl e
        | Inr l \<Rightarrow>
            if l = References then Inr None
            else if l = Section_number then Inr (Some (secs, current, Some line))
            else if l = Section then
              Inr (Some (secs @ [current],
                         \<lparr>node_type = Section_node,
                          header = Some (section_header pending line),
                          content = []\<rparr>,
                         None))
            else if l = Subsection then
              Inr (Some (secs @ [current],
                         \<lparr>node_type = Subsection_node, header = Some line, content = []\<rparr>,
                         pending))
            else if l = Noise then Inr (Some (secs, current, pending))
            else Inr (Some (secs, current\<lparr>content := content current @ [line]\<rparr>, pending))))"

fun build_loop :: "build_state \<Rightarrow> string list \<Rightarrow> error + build_state" where
  "build_loop st [] = Inr st"
| "build_loop st (line # rest) =
     (case build_step st line of
        Inl e \<Rightarrow> Inl e
      | Inr None \<Rightarrow> Inr st
      | Inr (Some st') \<Rightarrow> build_loop st' rest)"

definition build_sections :: "extractor \<Rightarrow> error + extractor" where
  "build_sections self =
     (case build_loop (sections self,
                       \<lparr>node_type = Preamble_node, header = None, content = []\<rparr>,
                       None) (lines self) of
        Inl e \<Rightarrow> Inl e
      | Inr (secs, current, pending) \<Rightarrow> Inr (self\<lparr>sections := secs @ [current]\<rparr>))"

subsection \<open>Pipeline\<close>

definition process :: "extractor \<Rightarrow> error + extractor" where
  "process self =
     (case detect_title_and_authors 15 self of
        Inl e \<Rightarrow> Inl e
      | Inr self' \<Rightarrow> build_sections self')"

text \<open>The last step of \<^verbatim>\<open>extract_pdf_headers\<close>: the headers of the section nodes whose
  header is neither \<^verbatim>\<open>None\<close> nor empty.\<close>

definition section_headers :: "node list \<Rightarrow> string list" where
  "section_headers secs =
     map (\<lambda>n. the (header n))
       (filter (\<lambda>n. node_type n = Section_node \<and> header n \<noteq> None \<and> header n \<noteq> Some []) secs)"

section \<open>The normalizer (\<^verbatim>\<open>TextPreprocessor\<close>)\<close>

record warnings =
  repeated_headers_removed :: bool
  abstract_detected :: bool
  references_removed :: bool
  page_numbers_removed :: bool

record preprocessor =
  original_text :: string
  cleaned_text :: string
  warnings :: warnings

definition new_preprocessor :: "string \<Rightarrow> preprocessor" where
  "new_preprocessor extracted_text =
     \<lparr>original_text = extracted_text, cleaned_text = extracted_text,
      warnings = \<lparr>repeated_headers_removed = False, abstract_detected = False,
                  references_removed = False, page_numbers_removed = False\<rparr>\<rparr>"

subsection \<open>Step 1: repeated margins\<close>

text \<open>The key of the frequency table: the stripped line without its digits, its
  whitespace runs collapsed, in lower case.\<close>

definition margin_key :: "string \<Rightarrow> string" where
  "margin_key stripped = str_lower (re_sub (Plus space) '' '' (re_sub (Plus digit) [] stripped))"

text \<open>The first loop fills the dictionary \<^verbatim>\<open>frequency\<close>.\<close>

fun count_margins :: "(string \<rightharpoonup> nat) \<Rightarrow> string list \<Rightarrow> (string \<rightharpoonup> nat)" where
  "count_margins frequency [] = frequency"
| "count_margins frequency (line # rest) =
     (let stripped = str_strip line in
      if stripped = [] then count_margins frequency rest
      else let normalized = margin_key stripped in
        count_margins
          (frequency(normalized \<mapsto> (case frequency normalized of None \<Rightarrow> 0 | Some n \<Rightarrow> n) + 1))
          rest)"

text \<open>The second loop appends the lines that stay to \<^verbatim>\<open>filtered\<close> and sets the flags.\<close>

fun filter_margins :: "(string \<rightharpoonup> nat) \<Rightarrow> string list \<times> warnings \<Rightarrow> string list
    \<Rightarrow> string list \<times> warnings" where
  "filter_margins frequency (filtered, w) [] = (filtered, w)"
| "filter_margins frequency (filtered, w) (line # rest) =
     (let stripped = str_strip line in
      if stripped = [] then filter_margins frequency (filtered, w) rest
      else if matched (re_fullmatch (Plus digit) stripped)
      then filter_margins frequency (filtered, w\<lparr>page_numbers_removed := True\<rparr>) rest
      else let normalized = margin_key stripped in
        if 1 < (case frequency normalized of None \<Rightarrow> 0 | Some n \<Rightarrow> n)
        then filter_margins frequency (filtered, w\<lparr>repeated_headers_removed := True\<rparr>) rest
        else filter_margins frequency (filtered @ [line], w) rest)"

definition remove_margins :: "preprocessor \<Rightarrow> preprocessor" where
  "remove_margins self =
     (let text_lines = str_split_on newline (cleaned_text self);
          frequency = count_margins Map.empty text_lines
      in case filter_margins frequency ([], warnings self) text_lines of
           (filtered, w) \<Rightarrow>
             self\<lparr>cleaned_text := str_strip (str_join [newline] filtered), warnings := w\<rparr>)"

subsection \<open>Step 2: abstract and references\<close>

definition RE_ABSTRACT_WORD :: regex where
  "RE_ABSTRACT_WORD = Seq Wordb (Seq (alts_i [''abstract'', ''resumen'']) Wordb)"

definition RE_INTRODUCTION_WORD :: regex where
  "RE_INTRODUCTION_WORD = Seq Wordb (Seq (alts_i [''introduction'']) Wordb)"

definition RE_REFERENCES_TAIL :: regex where
  "RE_REFERENCES_TAIL =
     Seq Wordb (Seq (alts_i [''references'', ''bibliography''])
       (Seq Wordb (Seq (Star anychar) Eos)))"

definition remove_sections :: "preprocessor \<Rightarrow> preprocessor" where
  "remove_sections self =
     (let text = cleaned_text self;
          w1 = (if matched (re_search RE_ABSTRACT_WORD text)
                then (warnings self)\<lparr>abstract_detected := True\<rparr> else warnings self);
          text1 = (case re_search RE_INTRODUCTION_WORD text of
                     Some (start, _) \<Rightarrow> drop start text
                   | None \<Rightarrow> text)
      in case re_search RE_REFERENCES_TAIL text1 of
           Some (start, _) \<Rightarrow>
             self\<lparr>cleaned_text := str_strip (take start text1),
                  warnings := w1\<lparr>references_removed := True\<rparr>\<rparr>
         | None \<Rightarrow> self\<lparr>cleaned_text := str_strip text1, warnings := w1\<rparr>)"

section \<open>Statements of the normalizer in the words of its description\<close>

text \<open>
  A line is blank when stripping leaves nothing, and a page number when its stripped form
  is a non-empty run of digits. \<open>key_count\<close> counts the non-blank lines of the document
  that share a key.
\<close>

definition blank :: "string \<Rightarrow> bool" where
  "blank line = (str_strip line = [])"

definition digits_only :: "string \<Rightarrow> bool" where
  "digits_only line = (str_strip line \<noteq> [] \<and> list_all is_digit (str_strip line))"

definition key_count :: "string list \<Rightarrow> string \<Rightarrow> nat" where
  "key_count text_lines k =
     length (filter (\<lambda>l. \<not> blank l \<and> margin_key (str_strip l) = k) text_lines)"

definition repeated_margin :: "string list \<Rightarrow> string \<Rightarrow> bool" where
  "repeated_margin text_lines line = (1 < key_count text_lines (margin_key (str_strip line)))"

definition margin_kept :: "string list \<Rightarrow> string \<Rightarrow> bool" where
  "margin_kept text_lines line =
     (\<not> blank line \<and> \<not> digits_only line \<and> \<not> repeated_margin text_lines line)"

text \<open>The count that the dictionary \<^verbatim>\<open>frequency\<close> holds for a key, 0 for a missing key
  (\<^verbatim>\<open>frequency.get(key, 0)\<close>).\<close>

definition lookup :: "(string \<rightharpoonup> nat) \<Rightarrow> string \<Rightarrow> nat" where
  "lookup frequency k = (case frequency k of None \<Rightarrow> 0 | Some n \<Rightarrow> n)"

text \<open>
  A whole-word occurrence of the lower-case word \<open>w\<close> at position \<open>i\<close>: the text reads \<open>w\<close>
  there in some letter case, no word character stands right before it and none right after.
  \<open>first_word\<close> is the position of the first occurrence of one of the words.
\<close>

definition occurs_word :: "string \<Rightarrow> string \<Rightarrow> nat \<Rightarrow> bool" where
  "occurs_word w s i =
     (i + length w \<le> length s \<and> str_lower (take (length w) (drop i s)) = w \<and>
      \<not> (0 < i \<and> is_word (s ! (i - 1))) \<and>
      \<not> (i + length w < length s \<and> is_word (s ! (i + length w))))"

definition first_word :: "string list \<Rightarrow> string \<Rightarrow> nat option" where
  "first_word ws s =
     List.find (\<lambda>i. list_ex (\<lambda>w. occurs_word w s i) ws) [0 ..< Suc (length s)]"

definition remove_sections_described :: "preprocessor \<Rightarrow> preprocessor" where
  "remove_sections_described self =
     (let text = cleaned_text self;
          w1 = (warnings self)\<lparr>abstract_detected :=
                  abstract_detected (warnings self) \<or>
                  first_word [''abstract'', ''resumen''] text \<noteq> None\<rparr>;
          text1 = (case first_word [''introduction''] text of
                     Some i \<Rightarrow> drop i text | None \<Rightarrow> text)
      in case first_word [''references'', ''bibliography''] text1 of
           Some j \<Rightarrow> self\<lparr>cleaned_text := str_strip (take j text1),
                           warnings := w1\<lparr>references_removed := True\<rparr>\<rparr>
         | None \<Rightarrow> self\<lparr>cleaned_text := str_strip text1, warnings := w1\<rparr>)"

section \<open>Statements of the builder in the words of its description\<close>

text \<open>The lines that become content (labels abstract, keywords and content), the lines that
  open a node, and the lines before the references boundary.\<close>

definition content_line :: "string \<Rightarrow> bool" where
  "content_line line =
     (classify_line line = Inr Abstract \<or> classify_line line = Inr Keywords \<or>
      classify_line line = Inr Content)"

definition header_line :: "string \<Rightarrow> bool" where
  "header_line line = (classify_line line = Inr Section \<or> classify_line line = Inr Subsection)"

definition before_references :: "string list \<Rightarrow> string list" where
  "before_references text_lines = takeWhile (\<lambda>line. classify_line line \<noteq> Inr References) text_lines"

text \<open>The lines that leave the pending number where it is: they neither store a number, nor
  open a section, nor end the loop.\<close>

definition carries_pending :: "string \<Rightarrow> bool" where
  "carries_pending line =
     (classify_line line = Inr Noise \<or> classify_line line = Inr Subsection \<or> content_line line)"

section \<open>The classifier without the starter check\<close>



section \<open>Analysis of patterns\<close>

text \<open>A pattern that can match without consuming a character, the characters a consuming
  match can start with, and the patterns that do not tell a letter from its other case.\<close>

fun nullable :: "regex \<Rightarrow> bool" where
  "nullable (Atom P) = False"
| "nullable Eps = True"
| "nullable Bos = True"
| "nullable Eos = True"
| "nullable Wordb = True"
| "nullable (Seq a b) = (nullable a \<and> nullable b)"
| "nullable (Alt a b) = (nullable a \<or> nullable b)"
| "nullable (Star a) = True"

fun firstp :: "regex \<Rightarrow> char \<Rightarrow> bool" where
  "firstp (Atom P) c = P c"
| "firstp Eps c = False"
| "firstp Bos c = False"
| "firstp Eos c = False"
| "firstp Wordb c = False"
| "firstp (Seq a b) c = (firstp a c \<or> (nullable a \<and> firstp b c))"
| "firstp (Alt a b) c = (firstp a c \<or> firstp b c)"
| "firstp (Star a) c = firstp a c"

fun caseless :: "regex \<Rightarrow> bool" where
  "caseless (Atom P) = (\<forall>c. P (lower_char c) = P c)"
| "caseless (Seq a b) = (caseless a \<and> caseless b)"
| "caseless (Alt a b) = (caseless a \<and> caseless b)"
| "caseless (Star a) = caseless a"
| "caseless r = True"

text \<open>A literal string matches where the text reads it, letter case apart.\<close>

definition reads_at :: "string \<Rightarrow> string \<Rightarrow> nat \<Rightarrow> bool" where
  "reads_at w s i =
     (i + length w \<le> length s \<and> map lower_char (take (length w) (drop i s)) = map lower_char w)"

text \<open>A word of a pattern between two \<^verbatim>\<open>\b\<close>: in lower case, and with a word character first
  and last, so that the boundaries fall where no word character is next to the word.\<close>

definition plain_word :: "string \<Rightarrow> bool" where
  "plain_word w = (w \<noteq> [] \<and> str_lower w = w \<and> is_word (hd w) \<and> is_word (last w))"

section \<open>Properties of the character classes\<close>

lemma of_char_lower:
  "(of_char (lower_char c) :: nat) =
     (let n = of_char c in
      if (65 \<le> n \<and> n \<le> 90) \<or> (192 \<le> n \<and> n \<le> 214) \<or> (216 \<le> n \<and> n \<le> 222)
      then n + 32 else n)"
  by (simp add: lower_char_def Let_def)

lemma is_space_lower [simp]: "is_space (lower_char c) = is_space c"
  unfolding is_space_def of_char_lower Let_def by auto

lemma is_digit_lower [simp]: "is_digit (lower_char c) = is_digit c"
  unfolding is_digit_def of_char_lower Let_def by auto

lemma is_alpha_lower [simp]: "is_alpha (lower_char c) = is_alpha c"
  unfolding is_alpha_def of_char_lower Let_def by auto

lemma is_word_lower [simp]: "is_word (lower_char c) = is_word c"
  unfolding is_word_def is_alpha_def is_digit_def of_char_lower Let_def by auto

lemma lower_lower [simp]: "lower_char (lower_char c) = lower_char c"
proof -
  have "(of_char (lower_char (lower_char c)) :: nat) = of_char (lower_char c)"
    unfolding of_char_lower [of "lower_char c"] unfolding of_char_lower Let_def by auto
  then show ?thesis by simp
qed

lemma lower_cases: "lower_char c = c \<or> is_alpha c"
  by (simp add: lower_char_def is_alpha_def Let_def)

lemma lower_fixed: "\<not> is_alpha k \<Longrightarrow> lower_char c = k \<longleftrightarrow> c = k"
proof
  assume k: "\<not> is_alpha k" and l: "lower_char c = k"
  from lower_cases [of c] show "c = k"
  proof
    assume "lower_char c = c" with l show ?thesis by simp
  next
    assume "is_alpha c"
    then have "is_alpha (lower_char c)" by simp
    with k l show ?thesis by simp
  qed
next
  assume k: "\<not> is_alpha k" and c: "c = k"
  from lower_cases [of k] k c show "lower_char c = k" by simp
qed

section \<open>Properties of the matcher\<close>

text \<open>The equation of the repetition unfolds without end; it is used where it is named.\<close>

declare ms.simps(8) [simp del]

declare re_sub_from.simps [simp del]

lemma set_ms_Seq: "set (ms (Seq a b) s i) = (\<Union>k\<in>set (ms a s i). set (ms b s k))"
  by simp

lemma set_ms_Star:
  "set (ms (Star a) s i) =
     insert i (\<Union>k\<in>{k \<in> set (ms a s i). i < k \<and> k \<le> length s}. set (ms (Star a) s k))"
  by (subst ms.simps(8)) auto

lemma ms_mono: "j \<in> set (ms r s i) \<Longrightarrow> i \<le> j"
proof (induction r s i arbitrary: j rule: ms.induct)
  case (6 a b s i)
  from "6.prems" obtain k where k: "k \<in> set (ms a s i)" and j: "j \<in> set (ms b s k)"
    unfolding set_ms_Seq by blast
  from "6.IH"(1) [OF k] "6.IH"(2) [OF k j] show ?case by linarith
next
  case (8 a s i)
  from "8.prems" consider "j = i"
    | k where "k \<in> set (ms a s i)" "i < k" "k \<le> length s" "j \<in> set (ms (Star a) s k)"
    unfolding set_ms_Star [of a s i] by blast
  then show ?case
  proof cases
    case 1 then show ?thesis by simp
  next
    case 2
    have "k \<in> set (filter (\<lambda>j. i < j \<and> j \<le> length s) (ms a s i))" using 2 by simp
    from "8.IH"(2) [OF this 2(4)] 2(2) show ?thesis by linarith
  qed
qed (auto split: if_splits)

lemma ms_le_length: "j \<in> set (ms r s i) \<Longrightarrow> i \<le> length s \<Longrightarrow> j \<le> length s"
proof (induction r s i arbitrary: j rule: ms.induct)
  case (6 a b s i)
  from "6.prems" obtain k where k: "k \<in> set (ms a s i)" and j: "j \<in> set (ms b s k)"
    unfolding set_ms_Seq by blast
  from "6.IH"(1) [OF k "6.prems"(2)] "6.IH"(2) [OF k j] show ?case by blast
next
  case (8 a s i)
  from "8.prems" consider "j = i"
    | k where "k \<in> set (ms a s i)" "i < k" "k \<le> length s" "j \<in> set (ms (Star a) s k)"
    unfolding set_ms_Star [of a s i] by blast
  then show ?case
  proof cases
    case 1 then show ?thesis using "8.prems" by simp
  next
    case 2
    have "k \<in> set (filter (\<lambda>j. i < j \<and> j \<le> length s) (ms a s i))" using 2 by simp
    from "8.IH"(2) [OF this 2(4) 2(3)] show ?thesis .
  qed
qed (auto split: if_splits)


lemma ms_nullable: "j \<in> set (ms r s i) \<Longrightarrow> \<not> nullable r \<Longrightarrow> i < j"
proof (induction r s i arbitrary: j rule: ms.induct)
  case (1 P s i)
  then show ?case by (simp split: if_splits)
next
  case (6 a b s i)
  from "6.prems"(1) obtain k where k: "k \<in> set (ms a s i)" and j: "j \<in> set (ms b s k)"
    unfolding set_ms_Seq by blast
  note le = ms_mono [OF k] ms_mono [OF j]
  show ?case
  proof (cases "nullable a")
    case True
    with "6.prems"(2) have "\<not> nullable b" by simp
    from "6.IH"(2) [OF k j this] le show ?thesis by linarith
  next
    case False
    from "6.IH"(1) [OF k False] le show ?thesis by linarith
  qed
next
  case (7 a b s i)
  from "7.prems" have na: "\<not> nullable a" and nb: "\<not> nullable b" by simp_all
  from "7.prems"(1) have "j \<in> set (ms a s i) \<or> j \<in> set (ms b s i)" by simp
  then show ?case using "7.IH"(1) [OF _ na] "7.IH"(2) [OF _ nb] by blast
next
  case (2 s i) from "2.prems"(2) show ?case by simp
next
  case (3 s i) from "3.prems"(2) show ?case by simp
next
  case (4 s i) from "4.prems"(2) show ?case by simp
next
  case (5 s i) from "5.prems"(2) show ?case by simp
next
  case (8 a s i) from "8.prems"(2) show ?case by simp
qed

lemma ms_first: "j \<in> set (ms r s i) \<Longrightarrow> i < j \<Longrightarrow> i < length s \<and> firstp r (s ! i)"
proof (induction r s i arbitrary: j rule: ms.induct)
  case (1 P s i)
  then show ?case by (simp split: if_splits)
next
  case (2 s i) then show ?case by simp
next
  case (3 s i) then show ?case by (simp split: if_splits)
next
  case (4 s i) then show ?case by (simp split: if_splits)
next
  case (5 s i) then show ?case by (simp split: if_splits)
next
  case (6 a b s i)
  from "6.prems"(1) obtain k where k: "k \<in> set (ms a s i)" and j: "j \<in> set (ms b s k)"
    unfolding set_ms_Seq by blast
  show ?case
  proof (cases "i < k")
    case True
    from "6.IH"(1) [OF k True] show ?thesis by simp
  next
    case False
    with ms_mono [OF k] have ki: "k = i" by simp
    with ms_nullable [OF k] have na: "nullable a" by blast
    from "6.IH"(2) [OF k j] ki "6.prems"(2) na show ?thesis by simp
  qed
next
  case (7 a b s i)
  from "7.prems"(1) have "j \<in> set (ms a s i) \<or> j \<in> set (ms b s i)" by simp
  then show ?case using "7.IH"(1) [OF _ "7.prems"(2)] "7.IH"(2) [OF _ "7.prems"(2)] by auto
next
  case (8 a s i)
  from "8.prems" consider "j = i"
    | k where "k \<in> set (ms a s i)" "i < k" "k \<le> length s" "j \<in> set (ms (Star a) s k)"
    unfolding set_ms_Star [of a s i] by blast
  then show ?case
  proof cases
    case 1 with "8.prems"(2) show ?thesis by simp
  next
    case 2
    from "8.IH"(1) [OF 2(1) 2(2)] show ?thesis by simp
  qed
qed

lemma ms_first0:
  "ms r s i \<noteq> [] \<Longrightarrow> \<not> nullable r \<Longrightarrow> i < length s \<and> firstp r (s ! i)"
proof -
  assume a: "ms r s i \<noteq> []" and n: "\<not> nullable r"
  then obtain j where j: "j \<in> set (ms r s i)" by (cases "ms r s i") auto
  from ms_first [OF j ms_nullable [OF j n]] show ?thesis .
qed

lemma newline_lower [simp]: "lower_char c = newline \<longleftrightarrow> c = newline"
  by (rule lower_fixed) (simp add: is_alpha_def newline_def)

lemma word_at_lower [simp]: "word_at (map lower_char s) i = word_at s i"
  by (auto simp: word_at_def)

lemma ms_lower: "caseless r \<Longrightarrow> ms r (map lower_char s) i = ms r s i"
proof (induction r s i rule: ms.induct)
  case (1 P s i)
  then show ?case by (cases "i < length s") simp_all
next
  case (4 s i)
  then show ?case by (cases "i < length s") auto
next
  case (6 a b s i)
  have "\<And>k. k \<in> set (ms a s i) \<Longrightarrow> ms b (map lower_char s) k = ms b s k"
    using "6.IH"(2) "6.prems" by simp
  then have eq: "map (ms b (map lower_char s)) (ms a s i) = map (ms b s) (ms a s i)"
    by (intro map_cong) simp_all
  have "ms (Seq a b) (map lower_char s) i = concat (map (ms b (map lower_char s)) (ms a s i))"
    using "6.IH"(1) "6.prems" by simp
  also have "\<dots> = ms (Seq a b) s i" unfolding eq by simp
  finally show ?case .
next
  case (8 a s i)
  let ?ks = "filter (\<lambda>j. i < j \<and> j \<le> length s) (ms a s i)"
  have "\<And>k. k \<in> set ?ks \<Longrightarrow> ms (Star a) (map lower_char s) k = ms (Star a) s k"
    using "8.IH"(2) "8.prems" by simp
  then have eq: "map (ms (Star a) (map lower_char s)) ?ks = map (ms (Star a) s) ?ks"
    by (intro map_cong) simp_all
  have "ms (Star a) (map lower_char s) i =
        concat (map (ms (Star a) (map lower_char s)) ?ks) @ [i]"
    using "8.IH"(1) "8.prems" by (subst ms.simps(8)) simp
  also have "\<dots> = ms (Star a) s i" unfolding eq by (rule ms.simps(8) [symmetric])
  finally show ?case .
qed simp_all


lemma set_ms_Plus: "set (ms (Plus a) s i) = (\<Union>k\<in>set (ms a s i). set (ms (Star a) s k))"
  by (simp add: Plus_def)

lemma set_ms_Atom: "set (ms (Atom P) s i) = (if i < length s \<and> P (s ! i) then {Suc i} else {})"
  by simp

lemma star_atom_sound:
  "j \<in> set (ms (Star (Atom P)) s i) \<Longrightarrow>
     i \<le> j \<and> (j = i \<or> j \<le> length s) \<and> (\<forall>k. i \<le> k \<and> k < j \<longrightarrow> P (s ! k))"
proof (induction "length s - i" arbitrary: i rule: less_induct)
  case less
  from less.prems consider "j = i"
    | k where "k \<in> set (ms (Atom P) s i)" "i < k" "k \<le> length s" "j \<in> set (ms (Star (Atom P)) s k)"
    unfolding set_ms_Star [of "Atom P" s i] by blast
  then show ?case
  proof cases
    case 1 then show ?thesis by auto
  next
    case 2
    from 2(1) have k: "k = Suc i" and i: "i < length s" and p: "P (s ! i)"
      by (simp_all split: if_splits)
    have "length s - k < length s - i" using k i by simp
    from less.hyps [OF this 2(4)] k
    have j: "Suc i \<le> j" "j = Suc i \<or> j \<le> length s" "\<forall>k. Suc i \<le> k \<and> k < j \<longrightarrow> P (s ! k)"
      by auto
    have "P (s ! k)" if "i \<le> k" "k < j" for k
    proof (cases "k = i")
      case True with p show ?thesis by simp
    next
      case False with that j(3) show ?thesis by auto
    qed
    with j i show ?thesis by auto
  qed
qed

lemma star_atom_complete:
  "i \<le> j \<Longrightarrow> j \<le> length s \<Longrightarrow> (\<forall>k. i \<le> k \<and> k < j \<longrightarrow> P (s ! k)) \<Longrightarrow>
     j \<in> set (ms (Star (Atom P)) s i)"
proof (induction "j - i" arbitrary: i)
  case 0
  then have "j = i" by simp
  then show ?case unfolding set_ms_Star [of "Atom P" s i] by simp
next
  case (Suc n)
  then have i: "i < j" "i < length s" "P (s ! i)" by auto
  have "n = j - Suc i" using Suc.hyps(2) by simp
  from Suc.hyps(1) [OF this] Suc.prems i have "j \<in> set (ms (Star (Atom P)) s (Suc i))" by auto
  then show ?case using i Suc.prems unfolding set_ms_Star [of "Atom P" s i] by auto
qed

lemma set_ms_Star_Atom:
  "j \<in> set (ms (Star (Atom P)) s i) \<longleftrightarrow>
     j = i \<or> (i < j \<and> j \<le> length s \<and> (\<forall>k. i \<le> k \<and> k < j \<longrightarrow> P (s ! k)))"
proof
  assume "j \<in> set (ms (Star (Atom P)) s i)"
  from star_atom_sound [OF this] show
    "j = i \<or> (i < j \<and> j \<le> length s \<and> (\<forall>k. i \<le> k \<and> k < j \<longrightarrow> P (s ! k)))" by auto
next
  assume a: "j = i \<or> (i < j \<and> j \<le> length s \<and> (\<forall>k. i \<le> k \<and> k < j \<longrightarrow> P (s ! k)))"
  show "j \<in> set (ms (Star (Atom P)) s i)"
  proof (cases "j = i")
    case True then show ?thesis unfolding set_ms_Star [of "Atom P" s i] by simp
  next
    case False
    with a show ?thesis by (intro star_atom_complete) auto
  qed
qed

lemma set_ms_Plus_Atom:
  "j \<in> set (ms (Plus (Atom P)) s i) \<longleftrightarrow>
     i < j \<and> j \<le> length s \<and> (\<forall>k. i \<le> k \<and> k < j \<longrightarrow> P (s ! k))"
proof -
  have "j \<in> set (ms (Plus (Atom P)) s i) \<longleftrightarrow>
        i < length s \<and> P (s ! i) \<and> j \<in> set (ms (Star (Atom P)) s (Suc i))"
    by (simp add: Plus_def)
  also have "\<dots> \<longleftrightarrow> i < j \<and> j \<le> length s \<and> (\<forall>k. i \<le> k \<and> k < j \<longrightarrow> P (s ! k))"
    (is "?l \<longleftrightarrow> ?r")
  proof
    assume l: ?l
    then have j: "j = Suc i \<or> (Suc i < j \<and> j \<le> length s \<and> (\<forall>k. Suc i \<le> k \<and> k < j \<longrightarrow> P (s ! k)))"
      unfolding set_ms_Star_Atom by simp
    have "P (s ! k)" if "i \<le> k" "k < j" for k
    proof (cases "k = i")
      case True with l show ?thesis by simp
    next
      case False with that j show ?thesis by auto
    qed
    with l j show ?r by auto
  next
    assume r: ?r
    then have "i < length s" "P (s ! i)" by auto
    moreover have "j \<in> set (ms (Star (Atom P)) s (Suc i))"
      unfolding set_ms_Star_Atom using r by auto
    ultimately show ?l by simp
  qed
  finally show ?thesis .
qed

lemma reads_at_Nil [simp]: "reads_at [] s i \<longleftrightarrow> i \<le> length s"
  by (simp add: reads_at_def)

lemma reads_at_Cons:
  "reads_at (c # w) s i \<longleftrightarrow>
     i < length s \<and> lower_char (s ! i) = lower_char c \<and> reads_at w s (Suc i)"
proof (cases "i < length s")
  case True
  then have "drop i s = s ! i # drop (Suc i) s" by (simp add: Cons_nth_drop_Suc)
  then show ?thesis using True by (auto simp: reads_at_def)
next
  case False then show ?thesis by (simp add: reads_at_def)
qed

lemma ms_str_i:
  "i \<le> length s \<Longrightarrow> ms (str_i w) s i = (if reads_at w s i then [i + length w] else [])"
proof (induction w arbitrary: i)
  case Nil then show ?case by simp
next
  case (Cons c w)
  show ?case
  proof (cases "i < length s \<and> lower_char (s ! i) = lower_char c")
    case True
    then have "ms (str_i (c # w)) s i = ms (str_i w) s (Suc i)" by (simp add: lit_i_def)
    also have "\<dots> = (if reads_at w s (Suc i) then [Suc i + length w] else [])"
      using True by (intro Cons.IH) simp
    finally show ?thesis using True by (simp add: reads_at_Cons)
  next
    case False
    then show ?thesis by (auto simp: lit_i_def reads_at_Cons)
  qed
qed

lemma set_ms_alts_i:
  "set (ms (alts_i ws) s i) = (\<Union>w\<in>set ws. set (ms (str_i w) s i))"
  by (induction ws rule: alts_i.induct) simp_all

lemma ms_alts_i_iff:
  "i \<le> length s \<Longrightarrow> j \<in> set (ms (alts_i ws) s i) \<longleftrightarrow> (\<exists>w\<in>set ws. reads_at w s i \<and> j = i + length w)"
  by (auto simp: set_ms_alts_i ms_str_i split: if_splits)

lemma matched_re_match: "matched (re_match r s) \<longleftrightarrow> ms r s 0 \<noteq> []"
  by (simp add: matched_def re_match_def split: list.splits)

lemma first_match_None: "first_match r s is = None \<longleftrightarrow> (\<forall>i\<in>set is. ms r s i = [])"
  by (induction "is") (auto split: list.splits)

lemma matched_re_search: "matched (re_search r s) \<longleftrightarrow> (\<exists>i\<le>length s. ms r s i \<noteq> [])"
proof -
  have set: "set [0 ..< Suc (length s)] = {i. i \<le> length s}" by auto
  have "matched (re_search r s) \<longleftrightarrow> (\<exists>i\<in>set [0 ..< Suc (length s)]. ms r s i \<noteq> [])"
    unfolding matched_def re_search_def first_match_None by blast
  then show ?thesis unfolding set by blast
qed

section \<open>The classifier returns a label\<close>

lemma split_ws_nonempty: "w \<noteq> [] \<or> (\<exists>c\<in>set s. \<not> is_space c) \<Longrightarrow> split_ws w s \<noteq> []"
  by (induction s arbitrary: w) auto

lemma lower_eq_not_space: "lower_char c = lower_char k \<Longrightarrow> \<not> is_space k \<Longrightarrow> \<not> is_space c"
  by (metis is_space_lower)

lemmas vocabulary_defs =
  SECTION_TEXT_VOCABULARY_def metodologia_def discusion_def i_acute_def o_acute_def

lemma text_only_not_nullable: "\<not> nullable RE_SECTION_TEXT_ONLY"
  by (simp add: RE_SECTION_TEXT_ONLY_def vocabulary_defs lit_i_def)

lemma text_only_firstp:
  assumes "firstp RE_SECTION_TEXT_ONLY c"
  shows "\<not> is_space c"
proof -
  from assms obtain k where k: "lower_char c = lower_char k" "k \<in> set ''ibrmdecft''"
    by (auto simp: RE_SECTION_TEXT_ONLY_def vocabulary_defs lit_i_def Opt_def)
  have "\<forall>k\<in>set ''ibrmdecft''. \<not> is_space k" by (simp add: is_space_def)
  with k lower_eq_not_space show ?thesis by blast
qed

lemma text_only_word:
  assumes "matched (re_match RE_SECTION_TEXT_ONLY line)"
  shows "str_split (str_lower line) \<noteq> []"
proof -
  from assms have "ms RE_SECTION_TEXT_ONLY line 0 \<noteq> []" by (simp add: matched_re_match)
  from ms_first0 [OF this text_only_not_nullable]
  have "0 < length line" "\<not> is_space (line ! 0)" by (auto dest: text_only_firstp)
  then have "line ! 0 \<in> set line" "\<not> is_space (lower_char (line ! 0))" by simp_all
  then have "\<exists>c\<in>set (str_lower line). \<not> is_space c" by (auto simp: str_lower_def)
  then show ?thesis unfolding str_split_def by (intro split_ws_nonempty) simp
qed

lemma looks_like_section_returns:
  "matched (re_match RE_SECTION_TEXT_ONLY line) \<Longrightarrow> \<exists>ok. looks_like_section line = Inr ok"
  using text_only_word [of line] by (auto simp: looks_like_section_def split: list.splits)

lemma classify_line_returns: "\<exists>l. classify_line line = Inr l"
proof (cases "matched (re_match RE_SECTION_TEXT_ONLY line)")
  case True
  from looks_like_section_returns [OF this] obtain ok where "looks_like_section line = Inr ok" ..
  then show ?thesis by (simp add: classify_line_def split: option.splits)
next
  case False
  then show ?thesis by (simp add: classify_line_def split: option.splits)
qed

lemma classify_lines_return: "\<exists>ls. map classify_line text_lines = map Inr ls"
proof (induction text_lines)
  case Nil
  then show ?case by simp
next
  case (Cons line text_lines)
  then obtain ls where ls: "map classify_line text_lines = map Inr ls" ..
  from classify_line_returns obtain l where "classify_line line = Inr l" ..
  with ls have "map classify_line (line # text_lines) = map Inr (l # ls)" by simp
  then show ?case ..
qed

text \<open>
  C8. \<open>classify_line\<close> is a function of the line alone: it reads the line and the constant
  patterns and vocabularies, so the same line always gets the same label. It is total: for
  every string it returns one of the eight labels and never raises (the only operation that
  can raise, taking the first word in \<^verbatim>\<open>_looks_like_section\<close>, runs on lines that have a
  word). Hence every sequence of lines has a sequence of labels.
\<close>

theorem classify_line_total:
  "(\<exists>l. classify_line line = Inr l \<and>
        l \<in> {References, Noise, Abstract, Keywords, Section_number, Section, Subsection,
             Content}) \<and>
   (\<exists>ls. map classify_line text_lines = map Inr ls)"
proof -
  from classify_line_returns obtain l where l: "classify_line line = Inr l" ..
  have "l \<in> {References, Noise, Abstract, Keywords, Section_number, Section, Subsection,
             Content}"
    by (cases l) simp_all
  with l classify_lines_return show ?thesis by blast
qed

section \<open>The loop of the structure builder\<close>

lemma build_step_cases:
  obtains (is_references) "classify_line line = Inr References"
      "build_step (secs, cur, pend) line = Inr None"
  | (is_number) "classify_line line = Inr Section_number"
      "build_step (secs, cur, pend) line = Inr (Some (secs, cur, Some line))"
  | (is_section) "classify_line line = Inr Section"
      "build_step (secs, cur, pend) line =
         Inr (Some (secs @ [cur],
           \<lparr>node_type = Section_node, header = Some (section_header pend line), content = []\<rparr>,
           None))"
  | (is_subsection) "classify_line line = Inr Subsection"
      "build_step (secs, cur, pend) line =
         Inr (Some (secs @ [cur],
           \<lparr>node_type = Subsection_node, header = Some line, content = []\<rparr>, pend))"
  | (is_noise) "classify_line line = Inr Noise"
      "build_step (secs, cur, pend) line = Inr (Some (secs, cur, pend))"
  | (is_content) "content_line line"
      "build_step (secs, cur, pend) line =
         Inr (Some (secs, cur\<lparr>content := content cur @ [line]\<rparr>, pend))"
proof -
  from classify_line_returns obtain l where l: "classify_line line = Inr l" ..
  show ?thesis
    by (cases l) (use l that in \<open>simp_all add: build_step_def content_line_def\<close>)
qed

lemma build_loop_returns: "\<exists>st'. build_loop (secs, cur, pend) text_lines = Inr st'"
proof (induction text_lines arbitrary: secs cur pend)
  case Nil
  then show ?case by simp
next
  case (Cons line text_lines)
  show ?case
    by (cases rule: build_step_cases [where line = line and secs = secs and cur = cur and pend = pend])
      (use Cons.IH in simp_all)
qed

lemma build_loop_shape:
  assumes "build_loop (secs, cur, pend) text_lines = Inr (secs', cur', pend')"
  shows "\<exists>c rest. secs' @ [cur'] = secs @ [cur\<lparr>content := content cur @ c\<rparr>] @ rest \<and>
           list_all (\<lambda>n. node_type n \<noteq> Preamble_node) rest \<and>
           (list_all (\<lambda>line. \<not> header_line line) text_lines \<longrightarrow>
              rest = [] \<and> c = filter content_line (before_references text_lines))"
  using assms
proof (induction text_lines arbitrary: secs cur pend)
  case Nil
  then have "secs' @ [cur'] = secs @ [cur\<lparr>content := content cur @ []\<rparr>] @ []" by simp
  then show ?case by (intro exI [of _ "[]"]) (simp add: before_references_def)
next
  case (Cons line text_lines)
  show ?case
  proof (cases rule: build_step_cases [where line = line and secs = secs and cur = cur and pend = pend])
    case is_references
    with Cons.prems have "secs' @ [cur'] = secs @ [cur\<lparr>content := content cur @ []\<rparr>] @ []"
      by simp
    with is_references show ?thesis
      by (intro exI [of _ "[]"]) (simp add: before_references_def)
  next
    case is_number
    with Cons.prems have "build_loop (secs, cur, Some line) text_lines = Inr (secs', cur', pend')"
      by simp
    from Cons.IH [OF this] is_number show ?thesis
      by (simp add: before_references_def content_line_def header_line_def)
  next
    case is_section
    let ?new = "\<lparr>node_type = Section_node, header = Some (section_header pend line), content = []\<rparr>"
    from is_section Cons.prems
    have "build_loop (secs @ [cur], ?new, None) text_lines = Inr (secs', cur', pend')" by simp
    from Cons.IH [OF this] obtain c rest where
      r: "secs' @ [cur'] = (secs @ [cur]) @ [?new\<lparr>content := content ?new @ c\<rparr>] @ rest"
         "list_all (\<lambda>n. node_type n \<noteq> Preamble_node) rest" by blast
    have "secs' @ [cur'] = secs @ [cur\<lparr>content := content cur @ []\<rparr>] @
            (?new\<lparr>content := content ?new @ c\<rparr> # rest)" using r(1) by simp
    moreover have "list_all (\<lambda>n. node_type n \<noteq> Preamble_node)
            (?new\<lparr>content := content ?new @ c\<rparr> # rest)" using r(2) by simp
    moreover have "\<not> list_all (\<lambda>line. \<not> header_line line) (line # text_lines)"
      using is_section by (simp add: header_line_def)
    ultimately show ?thesis by blast
  next
    case is_subsection
    let ?new = "\<lparr>node_type = Subsection_node, header = Some line, content = []\<rparr>"
    from is_subsection Cons.prems
    have "build_loop (secs @ [cur], ?new, pend) text_lines = Inr (secs', cur', pend')" by simp
    from Cons.IH [OF this] obtain c rest where
      r: "secs' @ [cur'] = (secs @ [cur]) @ [?new\<lparr>content := content ?new @ c\<rparr>] @ rest"
         "list_all (\<lambda>n. node_type n \<noteq> Preamble_node) rest" by blast
    have "secs' @ [cur'] = secs @ [cur\<lparr>content := content cur @ []\<rparr>] @
            (?new\<lparr>content := content ?new @ c\<rparr> # rest)" using r(1) by simp
    moreover have "list_all (\<lambda>n. node_type n \<noteq> Preamble_node)
            (?new\<lparr>content := content ?new @ c\<rparr> # rest)" using r(2) by simp
    moreover have "\<not> list_all (\<lambda>line. \<not> header_line line) (line # text_lines)"
      using is_subsection by (simp add: header_line_def)
    ultimately show ?thesis by blast
  next
    case is_noise
    with Cons.prems have "build_loop (secs, cur, pend) text_lines = Inr (secs', cur', pend')"
      by simp
    from Cons.IH [OF this] is_noise show ?thesis
      by (simp add: before_references_def content_line_def header_line_def)
  next
    case is_content
    let ?cur = "cur\<lparr>content := content cur @ [line]\<rparr>"
    from is_content Cons.prems
    have "build_loop (secs, ?cur, pend) text_lines = Inr (secs', cur', pend')" by simp
    from Cons.IH [OF this] obtain c rest where
      r: "secs' @ [cur'] = secs @ [?cur\<lparr>content := content ?cur @ c\<rparr>] @ rest"
         "list_all (\<lambda>n. node_type n \<noteq> Preamble_node) rest"
         "list_all (\<lambda>line. \<not> header_line line) text_lines \<longrightarrow>
            rest = [] \<and> c = filter content_line (before_references text_lines)" by blast
    have nr: "classify_line line \<noteq> Inr References" "\<not> header_line line"
      using is_content(1) by (auto simp: content_line_def header_line_def)
    have "secs' @ [cur'] = secs @ [cur\<lparr>content := content cur @ (line # c)\<rparr>] @ rest"
      using r(1) by simp
    moreover have "list_all (\<lambda>line. \<not> header_line line) (line # text_lines) \<longrightarrow>
            rest = [] \<and> line # c = filter content_line (before_references (line # text_lines))"
      using r(3) nr is_content(1) by (simp add: before_references_def)
    ultimately show ?thesis using r(2) by blast
  qed
qed

section \<open>Evaluation on concrete lines\<close>

text \<open>The equations that compute the classes, the matcher and the classifier on a given
  string.\<close>

lemmas char_eval =
  is_space_def is_digit_def is_alpha_def is_word_def is_linebreak_def lower_char_def
  newline_def Let_def char_of_def bit_iff_odd

lemmas matcher_eval =
  ms.simps Opt_def Plus_def lit_def lit_i_def cls_def cls_i_def digit_def space_def dot_def
  anychar_def heading_sep_def re_match_def re_search_def re_fullmatch_def re_match_group_def
  matched_def word_at_def

lemmas pattern_eval =
  SECTION_NUMBER_PATTERN_def SECTION_TAIL_def RE_ABSTRACT_def RE_KEYWORDS_def RE_SECTION_def
  RE_SECTION_NUMBER_ONLY_def RE_REFERENCES_def RE_FIGURE_CAPTION_def RE_TABLE_CAPTION_def
  RE_EQUATION_def RE_FIGURE_INLINE_def RE_TABLE_INLINE_def RE_SECTION_TEXT_ONLY_def
  RE_URL_def RE_RQ_HEADER_def vocabulary_defs

lemmas classify_eval =
  classify_line_def looks_like_caption_def looks_like_section_def str_split_def str_lower_def
  str_endswith_def str_isalpha_def str_count_def numeric_depth_def NON_SECTION_KEYWORDS_def
  VALID_SECTION_STARTERS_def char_eval matcher_eval pattern_eval

lemmas lines_eval =
  new_extractor_def prepare_lines_def str_splitlines_def str_strip_def char_eval

lemma classify_title: "classify_line ''A study of things'' = Inr Content"
  by (simp add: classify_eval)

lemma classify_equation: "classify_line ''(3)'' = Inr Noise"
  by (simp add: classify_eval)

lemma lines_title: "lines (new_extractor (''A study of things'' @ [newline] @ '' (3)'')) = [''A study of things'', ''(3)'']"
  by (simp add: lines_eval)

section \<open>The classifier does not tell a letter from its other case\<close>

lemma caseless_lit: "\<not> is_alpha c \<Longrightarrow> caseless (lit c)"
  by (simp add: lit_def lower_fixed)

lemma caseless_lit_i [simp]: "caseless (lit_i c)"
  by (simp add: lit_i_def)

lemma caseless_cls: "list_all (\<lambda>c. \<not> is_alpha c) cs \<Longrightarrow> caseless (cls cs)"
proof -
  assume a: "list_all (\<lambda>c. \<not> is_alpha c) cs"
  have "lower_char x \<in> set cs \<longleftrightarrow> x \<in> set cs" for x
  proof
    assume "lower_char x \<in> set cs"
    with a have "\<not> is_alpha (lower_char x)" unfolding list_all_iff by blast
    then have "\<not> is_alpha x" by simp
    with lower_cases [of x] have "lower_char x = x" by simp
    with \<open>lower_char x \<in> set cs\<close> show "x \<in> set cs" by simp
  next
    assume x: "x \<in> set cs"
    with a have "\<not> is_alpha x" unfolding list_all_iff by blast
    with lower_cases [of x] x show "lower_char x \<in> set cs" by simp
  qed
  then show ?thesis by (simp add: cls_def)
qed

lemma caseless_cls_i [simp]: "caseless (cls_i cs)"
  by (simp add: cls_i_def)

lemma caseless_classes [simp]:
  "caseless digit" "caseless space" "caseless dot" "caseless anychar" "caseless heading_sep"
  by (simp_all add: digit_def space_def dot_def anychar_def heading_sep_def lower_fixed
      is_alpha_def)

lemma caseless_Opt [simp]: "caseless (Opt a) = caseless a"
  by (simp add: Opt_def)

lemma caseless_Plus [simp]: "caseless (Plus a) = caseless a"
  by (simp add: Plus_def)

lemma caseless_str_i [simp]: "caseless (str_i w)"
  by (induction w) simp_all

lemma caseless_alts_i [simp]: "caseless (alts_i ws)"
  by (induction ws rule: alts_i.induct) simp_all

lemma caseless_marks [simp]:
  "caseless (lit CHR ''.'')" "caseless (lit CHR ''('')" "caseless (lit CHR '')'')"
  "caseless (lit CHR '':'')" "caseless (cls ''.)'')" "caseless (cls ''.:'')"
  by (simp_all add: caseless_lit caseless_cls is_alpha_def)

lemma caseless_patterns [simp]:
  "caseless RE_REFERENCES" "caseless RE_FIGURE_CAPTION" "caseless RE_TABLE_CAPTION"
  "caseless RE_FIGURE_INLINE" "caseless RE_TABLE_INLINE" "caseless RE_EQUATION"
  "caseless RE_RQ_HEADER" "caseless RE_URL" "caseless RE_ABSTRACT" "caseless RE_KEYWORDS"
  "caseless RE_SECTION_NUMBER_ONLY" "caseless SECTION_NUMBER_PATTERN" "caseless SECTION_TAIL"
  "caseless RE_SECTION_TEXT_ONLY" "caseless RE_SECTION"
  by (simp_all add: pattern_eval del: str_i.simps alts_i.simps)

lemma re_match_lower: "caseless r \<Longrightarrow> re_match r (str_lower s) = re_match r s"
  by (simp add: re_match_def str_lower_def ms_lower)

lemma first_match_lower:
  "caseless r \<Longrightarrow> first_match r (map lower_char s) starts = first_match r s starts"
  by (induction starts) (simp_all add: ms_lower split: list.splits)

lemma re_search_lower: "caseless r \<Longrightarrow> re_search r (str_lower s) = re_search r s"
  by (simp add: re_search_def str_lower_def first_match_lower)

lemma first_end_lower:
  "caseless post \<Longrightarrow> first_end post (map lower_char s) ends = first_end post s ends"
  by (induction ends) (simp_all add: ms_lower)

lemma first_span_lower:
  "caseless grp \<Longrightarrow> caseless post \<Longrightarrow>
     first_span grp post (map lower_char s) starts = first_span grp post s starts"
  by (induction starts) (simp_all add: ms_lower first_end_lower split: option.splits)

lemma re_match_group_lower:
  "caseless pre \<Longrightarrow> caseless grp \<Longrightarrow> caseless post \<Longrightarrow>
     re_match_group pre grp post (str_lower s) =
       map_option str_lower (re_match_group pre grp post s)"
  by (simp add: re_match_group_def str_lower_def ms_lower first_span_lower take_map drop_map
      split: option.splits)

lemma str_lower_idem [simp]: "str_lower (str_lower s) = str_lower s"
  by (simp add: str_lower_def)

lemma str_isalpha_lower [simp]: "str_isalpha (str_lower s) = str_isalpha s"
  by (simp add: str_isalpha_def str_lower_def list_all_iff)

lemma str_count_lower_dot [simp]: "str_count (str_lower s) CHR ''.'' = str_count s CHR ''.''"
proof -
  have "lower_char x = CHR ''.'' \<longleftrightarrow> x = CHR ''.''" for x
    by (rule lower_fixed) (simp add: is_alpha_def)
  then show ?thesis by (simp add: str_count_def str_lower_def filter_map comp_def)
qed

lemma str_endswith_lower_dot [simp]:
  "str_endswith (str_lower s) CHR ''.'' = str_endswith s CHR ''.''"
proof -
  have "lower_char x = CHR ''.'' \<longleftrightarrow> x = CHR ''.''" for x
    by (rule lower_fixed) (simp add: is_alpha_def)
  then show ?thesis by (cases s rule: rev_cases) (simp_all add: str_endswith_def str_lower_def)
qed

lemma looks_like_caption_lower [simp]: "looks_like_caption (str_lower s) = looks_like_caption s"
  by (simp add: looks_like_caption_def)

lemma looks_like_section_lower [simp]: "looks_like_section (str_lower s) = looks_like_section s"
  by (simp add: looks_like_section_def)

lemma classify_line_lower: "classify_line (str_lower line) = classify_line line"
  by (simp add: classify_line_def re_match_lower re_search_lower re_match_group_lower
      numeric_depth_def split: option.splits)

section \<open>The preamble node\<close>

text \<open>
  C1. For every input string \<^verbatim>\<open>build_sections\<close> returns, and the sections sequence of a new
  extractor is then the preamble node (header \<^verbatim>\<open>None\<close>) followed by nodes that are no
  preamble nodes, so it is non-empty with exactly one preamble node, the first. If no line
  of the input is labelled section or subsection, the sequence is that one preamble node
  alone, its content the content lines before the references boundary, and the list of
  section headers is empty. This covers the empty input.
\<close>

theorem build_sections_preamble:
  "\<exists>self'. build_sections (new_extractor text) = Inr self' \<and>
     (\<exists>c rest. sections self' = \<lparr>node_type = Preamble_node, header = None, content = c\<rparr> # rest \<and>
        list_all (\<lambda>n. node_type n \<noteq> Preamble_node) rest \<and>
        (list_all (\<lambda>line. \<not> header_line line) (lines (new_extractor text)) \<longrightarrow>
           rest = [] \<and>
           c = filter content_line (before_references (lines (new_extractor text))) \<and>
           section_headers (sections self') = []))"
proof -
  let ?self = "new_extractor text"
  let ?pre = "\<lparr>node_type = Preamble_node, header = None, content = []\<rparr>"
  have s: "sections ?self = []" by (simp add: new_extractor_def)
  from build_loop_returns obtain st' where "build_loop ([], ?pre, None) (lines ?self) = Inr st'" ..
  moreover obtain secs' cur' pend' where "st' = (secs', cur', pend')" by (cases st') auto
  ultimately have l: "build_loop ([], ?pre, None) (lines ?self) = Inr (secs', cur', pend')" by simp
  from build_loop_shape [OF l] obtain c rest where
    r: "secs' @ [cur'] = [?pre\<lparr>content := c\<rparr>] @ rest"
       "list_all (\<lambda>n. node_type n \<noteq> Preamble_node) rest"
       "list_all (\<lambda>line. \<not> header_line line) (lines ?self) \<longrightarrow>
          rest = [] \<and> c = filter content_line (before_references (lines ?self))"
    by auto
  have b: "build_sections ?self = Inr (?self\<lparr>sections := secs' @ [cur']\<rparr>)"
    using l s by (simp add: build_sections_def)
  have "section_headers (secs' @ [cur']) = []" if "rest = []"
    using r(1) that by (simp add: section_headers_def)
  with r b show ?thesis by auto
qed

theorem build_sections_preamble_witness:
  "list_all (\<lambda>line. \<not> header_line line)
     (lines (new_extractor (''A study of things'' @ [newline] @ '' (3)''))) \<and>
   (\<exists>self'. build_sections (new_extractor (''A study of things'' @ [newline] @ '' (3)'')) = Inr self' \<and>
      sections self' = [\<lparr>node_type = Preamble_node, header = None, content = [''A study of things'']\<rparr>] \<and>
      section_headers (sections self') = [])"
proof -
  let ?text = "''A study of things'' @ [newline] @ '' (3)''"
  have h: "list_all (\<lambda>line. \<not> header_line line) (lines (new_extractor ?text))"
    unfolding lines_title by (simp add: header_line_def classify_title classify_equation)
  have c: "filter content_line (before_references (lines (new_extractor ?text))) =
      [''A study of things'']"
    unfolding lines_title
    by (simp add: content_line_def before_references_def classify_title classify_equation)
  from build_sections_preamble [of ?text] obtain self' c rest where
    b: "build_sections (new_extractor ?text) = Inr self'" and
    s: "sections self' = \<lparr>node_type = Preamble_node, header = None, content = c\<rparr> # rest" and
    i: "list_all (\<lambda>line. \<not> header_line line) (lines (new_extractor ?text)) \<longrightarrow>
          rest = [] \<and>
          c = filter content_line (before_references (lines (new_extractor ?text))) \<and>
          section_headers (sections self') = []"
    by (elim exE conjE)
  note m = mp [OF i h]
  note r = m [THEN conjunct1] and cc = m [THEN conjunct2, THEN conjunct1]
    and e = m [THEN conjunct2, THEN conjunct2]
  from s r cc c have "sections self' =
      [\<lparr>node_type = Preamble_node, header = None, content = [''A study of things'']\<rparr>]"
    by (simp only:)
  with b e h show ?thesis by (intro conjI exI [of _ self'])
qed

section \<open>Heading words without a separator\<close>

lemma classify_abstract_word: "classify_line ''abstract'' = Inr Content"
  by (simp add: classify_eval)

lemma classify_resumen_word: "classify_line ''resumen'' = Inr Content"
  by (simp add: classify_eval)

lemma classify_keywords_word: "classify_line ''keywords'' = Inr Content"
  by (simp add: classify_eval)

lemma classify_index_terms_word: "classify_line ''index terms'' = Inr Content"
  by (simp add: classify_eval)

lemma classify_palabras_clave_word: "classify_line ''palabras clave'' = Inr Content"
  by (simp add: classify_eval)

lemma build_step_content:
  "content_line line \<Longrightarrow>
     build_step (secs, cur, pend) line =
       Inr (Some (secs, cur\<lparr>content := content cur @ [line]\<rparr>, pend))"
  by (auto simp: content_line_def build_step_def)

lemma lower_Abstract: "str_lower ''Abstract'' = ''abstract''"
  by (simp add: str_lower_def char_eval)

text \<open>
  C10. The abstract and keywords labels need a separator after the heading word. A line that
  is exactly the word \<^verbatim>\<open>abstract\<close>, \<^verbatim>\<open>resumen\<close>, \<^verbatim>\<open>keywords\<close>, \<^verbatim>\<open>index terms\<close> or
  \<^verbatim>\<open>palabras clave\<close>, in any letter case and with nothing after it, is labelled content, and
  the loop of \<^verbatim>\<open>build_sections\<close> appends it to the content of the current node.
\<close>

theorem bare_heading_word_is_content:
  assumes "str_lower line \<in>
      {''abstract'', ''resumen'', ''keywords'', ''index terms'', ''palabras clave''}"
  shows "classify_line line = Inr Content \<and>
         build_step (secs, cur, pend) line =
           Inr (Some (secs, cur\<lparr>content := content cur @ [line]\<rparr>, pend))"
proof -
  have "classify_line (str_lower line) = Inr Content"
    using assms classify_abstract_word classify_resumen_word classify_keywords_word
      classify_index_terms_word classify_palabras_clave_word
    by (elim insertE emptyE) (simp_all only:)
  then have c: "classify_line line = Inr Content" by (simp only: classify_line_lower)
  then have "content_line line" by (simp add: content_line_def)
  from c build_step_content [OF this] show ?thesis by (intro conjI)
qed

theorem bare_heading_word_is_content_witness:
  "str_lower ''Abstract'' \<in>
      {''abstract'', ''resumen'', ''keywords'', ''index terms'', ''palabras clave''} \<and>
   classify_line ''Abstract'' = Inr Content \<and>
   build_step ([], \<lparr>node_type = Preamble_node, header = None, content = [''My title'']\<rparr>, None)
       ''Abstract'' =
     Inr (Some ([], \<lparr>node_type = Preamble_node, header = None,
                      content = [''My title'', ''Abstract'']\<rparr>, None))"
proof -
  have h: "str_lower ''Abstract'' \<in>
      {''abstract'', ''resumen'', ''keywords'', ''index terms'', ''palabras clave''}"
    unfolding lower_Abstract by (rule insertI1)
  from bare_heading_word_is_content [OF h, of "[]"
      "\<lparr>node_type = Preamble_node, header = None, content = [''My title'']\<rparr>" None]
  have "classify_line ''Abstract'' = Inr Content" and
    "build_step ([], \<lparr>node_type = Preamble_node, header = None, content = [''My title'']\<rparr>, None)
       ''Abstract'' =
     Inr (Some ([], \<lparr>node_type = Preamble_node, header = None,
                      content = [''My title'', ''Abstract'']\<rparr>, None))"
    by simp_all
  with h show ?thesis by (intro conjI)
qed

section \<open>The starter check of the ninth rule\<close>





lemma reads_at_snoc:
  "reads_at (w @ [c]) s i \<longleftrightarrow>
     reads_at w s i \<and> i + length w < length s \<and> lower_char (s ! (i + length w)) = lower_char c"
proof (induction w arbitrary: i)
  case Nil
  then show ?case by (auto simp: reads_at_Cons)
next
  case (Cons a w)
  show ?case by (simp add: reads_at_Cons Cons.IH)
qed




















section \<open>The references boundary\<close>

lemma ms_SeqI: "k \<in> set (ms a s i) \<Longrightarrow> j \<in> set (ms b s k) \<Longrightarrow> j \<in> set (ms (Seq a b) s i)"
  unfolding set_ms_Seq by blast

lemma ms_BosI: "0 \<in> set (ms Bos s 0)"
  by simp

lemma references_matches:
  assumes "str_lower w \<in> {''references'', ''referencias''}" and "list_all is_space ws"
  shows "matched (re_match RE_REFERENCES (w @ ws))"
proof -
  let ?s = "w @ ws"
  let ?v = "str_lower w"
  have v: "?v \<in> set [''references'', ''referencias'']" using assms(1) by simp
  have "reads_at ?v ?s 0" by (simp add: reads_at_def str_lower_def)
  with v have a: "length w \<in> set (ms (alts_i [''references'', ''referencias'']) ?s 0)"
    unfolding ms_alts_i_iff [OF le0] by (intro bexI [of _ ?v]) (simp_all add: str_lower_def)
  have "\<forall>k. length w \<le> k \<and> k < length ?s \<longrightarrow> is_space (?s ! k)"
    using assms(2) by (auto simp: nth_append list_all_length)
  then have b: "length ?s \<in> set (ms (Star space) ?s (length w))"
    unfolding space_def set_ms_Star_Atom by auto
  have c: "length ?s \<in> set (ms Eos ?s (length ?s))" by simp
  have "length ?s \<in> set (ms RE_REFERENCES ?s 0)"
    unfolding RE_REFERENCES_def by (intro ms_SeqI [OF ms_BosI] ms_SeqI [OF a] ms_SeqI [OF b] c)
  then show ?thesis unfolding matched_re_match by auto
qed

lemma build_loop_stops:
  "classify_line line = Inr References \<Longrightarrow>
     build_loop st (before @ line # after) = build_loop st before"
proof (induction before arbitrary: st)
  case Nil
  then show ?case by (simp add: build_step_def split: prod.splits)
next
  case (Cons l before)
  then show ?case by (simp split: sum.splits option.splits)
qed

lemma build_sections_stops:
  assumes "classify_line line = Inr References"
  shows "map_sum id sections (build_sections (self\<lparr>lines := before @ line # after\<rparr>)) =
         map_sum id sections (build_sections (self\<lparr>lines := before\<rparr>))"
  by (simp add: build_sections_def build_loop_stops [OF assms] split: sum.splits prod.splits)

lemma classify_Bibliography: "classify_line ''Bibliography'' = Inr Content"
  by (simp add: classify_eval)

lemma classify_Smith: "classify_line ''Smith 2019'' = Inr Content"
  by (simp add: classify_eval)

lemma lines_Bibliography:
  "lines (new_extractor (''Bibliography'' @ [newline] @ ''Smith 2019'')) =
     [''Bibliography'', ''Smith 2019'']"
  by (simp add: lines_eval)

lemma sections_new: "sections (new_extractor text) = []"
  by (simp add: new_extractor_def)

lemma lower_References: "str_lower ''References'' = ''references''"
  by (simp add: str_lower_def char_eval)

text \<open>
  C4, as stated, fails for the bibliography heading: the pattern of the classifier names
  \<^verbatim>\<open>references\<close> and \<^verbatim>\<open>referencias\<close> only, so a line \<^verbatim>\<open>Bibliography\<close> is labelled content and
  the lines after it still reach the nodes.
\<close>

theorem bibliography_line_is_content:
  "classify_line ''Bibliography'' = Inr Content \<and>
   map_sum id sections
     (build_sections (new_extractor (''Bibliography'' @ [newline] @ ''Smith 2019''))) =
     Inr [\<lparr>node_type = Preamble_node, header = None,
           content = [''Bibliography'', ''Smith 2019'']\<rparr>]"
proof -
  have "map_sum id sections
     (build_sections (new_extractor (''Bibliography'' @ [newline] @ ''Smith 2019''))) =
     Inr [\<lparr>node_type = Preamble_node, header = None,
           content = [''Bibliography'', ''Smith 2019'']\<rparr>]"
    unfolding build_sections_def lines_Bibliography sections_new
    by (simp add: build_step_def classify_Bibliography classify_Smith)
  with classify_Bibliography show ?thesis by (intro conjI)
qed

text \<open>
  C4, amended. For every line that consists of the word \<^verbatim>\<open>references\<close> or \<^verbatim>\<open>referencias\<close>, in
  any letter case, followed by nothing but whitespace, \<open>classify_line\<close> returns references,
  and the loop of \<^verbatim>\<open>build_sections\<close> stops at that line: the result is the result for the
  lines before it, whatever follows.
\<close>

theorem references_line_stops_builder:
  assumes "str_lower w \<in> {''references'', ''referencias''}" and "list_all is_space ws"
  shows "classify_line (w @ ws) = Inr References \<and>
         build_loop st (before @ (w @ ws) # after) = build_loop st before \<and>
         map_sum id sections (build_sections (self\<lparr>lines := before @ (w @ ws) # after\<rparr>)) =
         map_sum id sections (build_sections (self\<lparr>lines := before\<rparr>))"
proof -
  from references_matches [OF assms] have c: "classify_line (w @ ws) = Inr References"
    by (simp add: classify_line_def)
  from c build_loop_stops [OF c] build_sections_stops [OF c] show ?thesis by (intro conjI)
qed

theorem references_line_stops_builder_witness:
  "str_lower ''References'' \<in> {''references'', ''referencias''} \<and> list_all is_space '' '' \<and>
   classify_line (''References'' @ '' '') = Inr References \<and>
   build_loop ([], \<lparr>node_type = Preamble_node, header = None, content = []\<rparr>, None)
     ([''Some text''] @ (''References'' @ '' '') # [''Smith 2019'']) =
   build_loop ([], \<lparr>node_type = Preamble_node, header = None, content = []\<rparr>, None)
     [''Some text'']"
proof -
  have h1: "str_lower ''References'' \<in> {''references'', ''referencias''}"
    unfolding lower_References by (rule insertI1)
  have h2: "list_all is_space '' ''" by (simp add: is_space_def)
  note t = references_line_stops_builder [OF h1 h2,
      of "([], \<lparr>node_type = Preamble_node, header = None, content = []\<rparr>, None)"
         "[''Some text'']" "[''Smith 2019'']"]
  from h1 h2 t [THEN conjunct1] t [THEN conjunct2, THEN conjunct1] show ?thesis
    by (intro conjI)
qed

section \<open>The pending section number\<close>

lemma build_loop_count:
  assumes "build_loop (secs, cur, pend) text_lines = Inr (secs', cur', pend')"
  shows "length secs' = length secs + length (filter header_line (before_references text_lines))"
  using assms
proof (induction text_lines arbitrary: secs cur pend)
  case Nil
  then show ?case by (simp add: before_references_def)
next
  case (Cons line text_lines)
  show ?case
  proof (cases rule: build_step_cases [where line = line and secs = secs and cur = cur and pend = pend])
    case is_references
    with Cons.prems show ?thesis by (simp add: before_references_def)
  next
    case is_number
    with Cons.prems Cons.IH [of secs cur "Some line"] show ?thesis
      by (simp add: before_references_def header_line_def)
  next
    case is_section
    with Cons.prems Cons.IH [of "secs @ [cur]" _ None] show ?thesis
      by (simp add: before_references_def header_line_def)
  next
    case is_subsection
    with Cons.prems Cons.IH [of "secs @ [cur]" _ pend] show ?thesis
      by (simp add: before_references_def header_line_def)
  next
    case is_noise
    with Cons.prems Cons.IH [of secs cur pend] show ?thesis
      by (simp add: before_references_def header_line_def)
  next
    case is_content
    with Cons.prems Cons.IH [of secs _ pend] show ?thesis
      by (auto simp: before_references_def header_line_def content_line_def)
  qed
qed

lemma build_loop_contents:
  assumes "build_loop (secs, cur, pend) text_lines = Inr (secs', cur', pend')"
    and "list_all (\<lambda>n. list_all content_line (content n)) (secs @ [cur])"
  shows "list_all (\<lambda>n. list_all content_line (content n)) (secs' @ [cur'])"
  using assms
proof (induction text_lines arbitrary: secs cur pend)
  case Nil
  then show ?case by simp
next
  case (Cons line text_lines)
  show ?case
  proof (cases rule: build_step_cases [where line = line and secs = secs and cur = cur and pend = pend])
    case is_references
    with Cons.prems show ?thesis by simp
  next
    case is_number
    with Cons.prems Cons.IH [of secs cur "Some line"] show ?thesis by simp
  next
    case is_section
    with Cons.prems Cons.IH [of "secs @ [cur]" _ None] show ?thesis by simp
  next
    case is_subsection
    with Cons.prems Cons.IH [of "secs @ [cur]" _ pend] show ?thesis by simp
  next
    case is_noise
    with Cons.prems Cons.IH [of secs cur pend] show ?thesis by simp
  next
    case is_content
    with Cons.prems Cons.IH [of secs _ pend] show ?thesis by simp
  qed
qed

lemma number_line_not_empty: "classify_line number = Inr Section_number \<Longrightarrow> number \<noteq> []"
proof
  assume "classify_line number = Inr Section_number" "number = []"
  then have "classify_line [] = Inr Section_number" by simp
  then show False by (simp add: classify_eval)
qed


lemma classify_3_dot: "classify_line ''3.'' = Inr Section_number"
  by (simp add: classify_eval)

lemma classify_2_1_Setup: "classify_line ''2.1 Setup'' = Inr Subsection"
  by (simp add: classify_eval)

lemma classify_Methodology: "classify_line ''Methodology'' = Inr Section"
  by (simp add: classify_eval)

lemma lines_3_Methodology:
  "lines (new_extractor (''3.'' @ [newline] @ ''Methodology'')) = [''3.'', ''Methodology'']"
  by (simp add: lines_eval)

lemma lines_3_Setup_Methodology:
  "lines (new_extractor (''3.'' @ [newline] @ ''2.1 Setup'' @ [newline] @ ''Methodology'')) =
     [''3.'', ''2.1 Setup'', ''Methodology'']"
  by (simp add: lines_eval)

lemma sections_3_Methodology:
  "map_sum id sections (build_sections (new_extractor (''3.'' @ [newline] @ ''Methodology''))) =
     Inr [\<lparr>node_type = Preamble_node, header = None, content = []\<rparr>,
          \<lparr>node_type = Section_node, header = Some ''3. Methodology'', content = []\<rparr>]"
  unfolding build_sections_def lines_3_Methodology sections_new
  by (simp add: build_step_def section_header_def classify_3_dot classify_Methodology)

lemma sections_3_Setup_Methodology:
  "map_sum id sections (build_sections
      (new_extractor (''3.'' @ [newline] @ ''2.1 Setup'' @ [newline] @ ''Methodology''))) =
     Inr [\<lparr>node_type = Preamble_node, header = None, content = []\<rparr>,
          \<lparr>node_type = Subsection_node, header = Some ''2.1 Setup'', content = []\<rparr>,
          \<lparr>node_type = Section_node, header = Some ''3. Methodology'', content = []\<rparr>]"
  unfolding build_sections_def lines_3_Setup_Methodology sections_new
  by (simp add: build_step_def section_header_def classify_3_dot classify_Methodology
      classify_2_1_Setup)

lemma build_step_number:
  "classify_line number = Inr Section_number \<Longrightarrow>
     build_step (secs, cur, pend) number = Inr (Some (secs, cur, Some number))"
  by (simp add: build_step_def)

lemma build_step_section:
  "classify_line heading = Inr Section \<Longrightarrow>
     build_step (secs, cur, pend) heading =
       Inr (Some (secs @ [cur],
         \<lparr>node_type = Section_node, header = Some (section_header pend heading), content = []\<rparr>,
         None))"
  by (simp add: build_step_def)

lemma build_step_subsection:
  "classify_line sub = Inr Subsection \<Longrightarrow>
     build_step (secs, cur, pend) sub =
       Inr (Some (secs @ [cur],
         \<lparr>node_type = Subsection_node, header = Some sub, content = []\<rparr>, pend))"
  by (simp add: build_step_def)

lemma build_sections_count:
  "\<exists>self'. build_sections (new_extractor text) = Inr self' \<and>
     length (sections self') =
       1 + length (filter header_line (before_references (lines (new_extractor text)))) \<and>
     list_all (\<lambda>n. list_all content_line (content n)) (sections self')"
proof -
  let ?self = "new_extractor text"
  let ?pre = "\<lparr>node_type = Preamble_node, header = None, content = []\<rparr>"
  from build_loop_returns obtain st' where "build_loop ([], ?pre, None) (lines ?self) = Inr st'" ..
  moreover obtain secs' cur' pend' where "st' = (secs', cur', pend')" by (cases st') auto
  ultimately have l: "build_loop ([], ?pre, None) (lines ?self) = Inr (secs', cur', pend')" by simp
  have b: "build_sections ?self = Inr (?self\<lparr>sections := secs' @ [cur']\<rparr>)"
    using l by (simp add: build_sections_def sections_new)
  from build_loop_count [OF l] build_loop_contents [OF l] b show ?thesis by simp
qed

lemma build_loop_append:
  assumes "list_all (\<lambda>l. classify_line l \<noteq> Inr References) xs"
    and "build_loop (secs, cur, pend) xs = Inr (secs', cur', pend')"
  shows "build_loop (secs, cur, pend) (xs @ ys) = build_loop (secs', cur', pend') ys"
  using assms
proof (induction xs arbitrary: secs cur pend)
  case Nil
  then show ?case by simp
next
  case (Cons line xs)
  from Cons.prems(1) have nr: "classify_line line \<noteq> Inr References"
    and rest: "list_all (\<lambda>l. classify_line l \<noteq> Inr References) xs" by simp_all
  show ?case
  proof (cases rule: build_step_cases [where line = line and secs = secs and cur = cur and pend = pend])
    case is_references
    with nr show ?thesis by simp
  next
    case is_number
    with Cons.prems(2) Cons.IH [OF rest, of secs cur "Some line"] show ?thesis by simp
  next
    case is_section
    with Cons.prems(2) Cons.IH [OF rest, of "secs @ [cur]" _ None] show ?thesis by simp
  next
    case is_subsection
    with Cons.prems(2) Cons.IH [OF rest, of "secs @ [cur]" _ pend] show ?thesis by simp
  next
    case is_noise
    with Cons.prems(2) Cons.IH [OF rest, of secs cur pend] show ?thesis by simp
  next
    case is_content
    with Cons.prems(2) Cons.IH [OF rest, of secs _ pend] show ?thesis by simp
  qed
qed

lemma build_loop_carries:
  assumes "list_all carries_pending middle"
  shows "\<exists>secs2 cur2. build_loop (secs, cur, pend) middle = Inr (secs2, cur2, pend)"
  using assms
proof (induction middle arbitrary: secs cur)
  case Nil
  then show ?case by simp
next
  case (Cons line middle)
  from Cons.prems have c: "carries_pending line" and rest: "list_all carries_pending middle"
    by simp_all
  show ?case
  proof (cases rule: build_step_cases [where line = line and secs = secs and cur = cur and pend = pend])
    case is_references
    with c show ?thesis by (simp add: carries_pending_def content_line_def)
  next
    case is_number
    with c show ?thesis by (simp add: carries_pending_def content_line_def)
  next
    case is_section
    with c show ?thesis by (simp add: carries_pending_def content_line_def)
  next
    case is_subsection
    with Cons.IH [OF rest, of "secs @ [cur]"] show ?thesis by simp
  next
    case is_noise
    with Cons.IH [OF rest, of secs cur] show ?thesis by simp
  next
    case is_content
    with Cons.IH [OF rest, of secs] show ?thesis by simp
  qed
qed

lemma carries_not_references:
  "list_all carries_pending middle \<Longrightarrow> list_all (\<lambda>l. classify_line l \<noteq> Inr References) middle"
  by (induction middle) (auto simp: carries_pending_def content_line_def)

lemma before_references_all:
  "list_all (\<lambda>l. classify_line l \<noteq> Inr References) xs \<Longrightarrow> before_references xs = xs"
  by (induction xs) (simp_all add: before_references_def)

lemma pending_until_section:
  assumes n: "classify_line number = Inr Section_number"
    and m: "list_all carries_pending middle"
    and h: "classify_line heading = Inr Section"
  shows "\<exists>secs2 cur2.
      build_loop (secs, cur, pend) (number # middle) = Inr (secs2, cur2, Some number) \<and>
      build_loop (secs, cur, pend) (number # middle @ heading # after) =
        build_loop (secs2 @ [cur2],
          \<lparr>node_type = Section_node, header = Some (number @ '' '' @ heading), content = []\<rparr>,
          None) after"
proof -
  from build_loop_carries [OF m, of secs cur "Some number"] obtain secs2 cur2 where
    c: "build_loop (secs, cur, Some number) middle = Inr (secs2, cur2, Some number)" by blast
  have a: "build_loop (secs, cur, pend) (number # middle) = Inr (secs2, cur2, Some number)"
    using c build_step_number [OF n, of secs cur pend] by simp
  have nr: "list_all (\<lambda>l. classify_line l \<noteq> Inr References) (number # middle)"
    using n carries_not_references [OF m] by simp
  have "build_loop (secs, cur, pend) ((number # middle) @ heading # after) =
      build_loop (secs2, cur2, Some number) (heading # after)"
    by (rule build_loop_append [OF nr a])
  also have "\<dots> = build_loop (secs2 @ [cur2],
      \<lparr>node_type = Section_node, header = Some (number @ '' '' @ heading), content = []\<rparr>,
      None) after"
    using build_step_section [OF h, of secs2 cur2 "Some number"] number_line_not_empty [OF n]
    by (simp add: section_header_def)
  finally show ?thesis using a by auto
qed

lemma pending_until_section_result:
  assumes n: "classify_line number = Inr Section_number"
    and m: "list_all carries_pending middle"
    and h: "classify_line heading = Inr Section"
    and l: "lines (new_extractor text) = before @ number # middle @ heading # after"
    and b: "list_all (\<lambda>l. classify_line l \<noteq> Inr References) before"
  shows "\<exists>self' front c rest.
      build_sections (new_extractor text) = Inr self' \<and>
      sections self' =
        front @ \<lparr>node_type = Section_node, header = Some (number @ '' '' @ heading),
                 content = c\<rparr> # rest \<and>
      length front = 1 + length (filter header_line (before @ middle))"
proof -
  let ?pre = "\<lparr>node_type = Preamble_node, header = None, content = []\<rparr>"
  let ?new = "\<lparr>node_type = Section_node, header = Some (number @ '' '' @ heading), content = []\<rparr>"
  from build_loop_returns [of "[]" ?pre None before] obtain st1 where
    "build_loop ([], ?pre, None) before = Inr st1" ..
  moreover obtain s1 c1 p1 where "st1 = (s1, c1, p1)" by (cases st1) auto
  ultimately have b1: "build_loop ([], ?pre, None) before = Inr (s1, c1, p1)" by simp
  from pending_until_section [OF n m h, of s1 c1 p1 after] obtain s2 c2 where
    m1: "build_loop (s1, c1, p1) (number # middle) = Inr (s2, c2, Some number)" and
    m2: "build_loop (s1, c1, p1) (number # middle @ heading # after) =
         build_loop (s2 @ [c2], ?new, None) after" by blast
  from build_loop_returns [of "s2 @ [c2]" ?new None after] obtain st3 where
    "build_loop (s2 @ [c2], ?new, None) after = Inr st3" ..
  moreover obtain s3 c3 p3 where "st3 = (s3, c3, p3)" by (cases st3) auto
  ultimately have b3: "build_loop (s2 @ [c2], ?new, None) after = Inr (s3, c3, p3)" by simp
  have all: "build_loop ([], ?pre, None) (lines (new_extractor text)) = Inr (s3, c3, p3)"
    unfolding l using build_loop_append [OF b b1, of "number # middle @ heading # after"] m2 b3
    by simp
  have bs: "build_sections (new_extractor text) =
      Inr ((new_extractor text)\<lparr>sections := s3 @ [c3]\<rparr>)"
    using all by (simp add: build_sections_def sections_new)
  from build_loop_shape [OF b3] obtain c rest where
    sh: "s3 @ [c3] = (s2 @ [c2]) @ [?new\<lparr>content := content ?new @ c\<rparr>] @ rest" by blast
  have k1: "length s1 = length (filter header_line before)"
    using build_loop_count [OF b1] before_references_all [OF b] by simp
  have nr: "list_all (\<lambda>l. classify_line l \<noteq> Inr References) (number # middle)"
    using n carries_not_references [OF m] by simp
  have k2: "length s2 = length s1 + length (filter header_line middle)"
    using build_loop_count [OF m1] before_references_all [OF nr] n
    by (simp add: header_line_def)
  have "sections ((new_extractor text)\<lparr>sections := s3 @ [c3]\<rparr>) =
      (s2 @ [c2]) @ \<lparr>node_type = Section_node, header = Some (number @ '' '' @ heading),
                       content = c\<rparr> # rest"
    using sh by simp
  moreover have "length (s2 @ [c2]) = 1 + length (filter header_line (before @ middle))"
    using k1 k2 by simp
  ultimately show ?thesis using bs by blast
qed


lemma build_loop_carries_nodes:
  assumes "list_all carries_pending middle"
    and "list_all (\<lambda>n. node_type n \<noteq> Section_node) (secs @ [cur])"
    and "build_loop (secs, cur, pend) middle = Inr (secs2, cur2, pend2)"
  shows "list_all (\<lambda>n. node_type n \<noteq> Section_node) (secs2 @ [cur2])"
  using assms
proof (induction middle arbitrary: secs cur)
  case Nil
  then show ?case by simp
next
  case (Cons line middle)
  from Cons.prems have c: "carries_pending line" and rest: "list_all carries_pending middle"
    by simp_all
  show ?case
  proof (cases rule: build_step_cases [where line = line and secs = secs and cur = cur and pend = pend])
    case is_references
    with c show ?thesis by (simp add: carries_pending_def content_line_def)
  next
    case is_number
    with c show ?thesis by (simp add: carries_pending_def content_line_def)
  next
    case is_section
    with c show ?thesis by (simp add: carries_pending_def content_line_def)
  next
    case is_subsection
    with Cons.prems(3) have "build_loop (secs @ [cur],
        \<lparr>node_type = Subsection_node, header = Some line, content = []\<rparr>, pend) middle =
        Inr (secs2, cur2, pend2)" by simp
    from Cons.IH [OF rest _ this] Cons.prems(2) show ?thesis by simp
  next
    case is_noise
    with Cons.prems(3) have "build_loop (secs, cur, pend) middle = Inr (secs2, cur2, pend2)"
      by simp
    from Cons.IH [OF rest Cons.prems(2) this] show ?thesis .
  next
    case is_content
    with Cons.prems(3) have "build_loop (secs, cur\<lparr>content := content cur @ [line]\<rparr>, pend)
        middle = Inr (secs2, cur2, pend2)" by simp
    from Cons.IH [OF rest _ this] Cons.prems(2) show ?thesis by simp
  qed
qed

lemma pending_until_section_single:
  assumes n: "classify_line number = Inr Section_number"
    and m: "list_all carries_pending middle"
    and h: "classify_line heading = Inr Section"
    and l: "lines (new_extractor text) = number # middle @ [heading]"
  shows "\<exists>self' front.
      build_sections (new_extractor text) = Inr self' \<and>
      sections self' =
        front @ [\<lparr>node_type = Section_node, header = Some (number @ '' '' @ heading),
                  content = []\<rparr>] \<and>
      list_all (\<lambda>n. node_type n \<noteq> Section_node) front"
proof -
  let ?pre = "\<lparr>node_type = Preamble_node, header = None, content = []\<rparr>"
  let ?new = "\<lparr>node_type = Section_node, header = Some (number @ '' '' @ heading), content = []\<rparr>"
  from pending_until_section [OF n m h, of "[]" ?pre None "[]"] obtain s2 c2 where
    m1: "build_loop ([], ?pre, None) (number # middle) = Inr (s2, c2, Some number)" and
    m2: "build_loop ([], ?pre, None) (number # middle @ [heading]) =
         build_loop (s2 @ [c2], ?new, None) []" by blast
  have m3: "build_loop ([], ?pre, Some number) middle = Inr (s2, c2, Some number)"
    using m1 build_step_number [OF n, of "[]" ?pre None] by simp
  have f: "list_all (\<lambda>n. node_type n \<noteq> Section_node) (s2 @ [c2])"
    by (rule build_loop_carries_nodes [OF m _ m3]) simp
  have "build_sections (new_extractor text) =
      Inr ((new_extractor text)\<lparr>sections := (s2 @ [c2]) @ [?new]\<rparr>)"
    using m2 by (simp add: build_sections_def sections_new l)
  with f show ?thesis by auto
qed

lemma classify_paren_1: "classify_line ''(1)'' = Inr Noise"
  by (simp add: classify_eval)

lemma classify_some_text: "classify_line ''some text'' = Inr Content"
  by (simp add: classify_eval)

lemma lines_3_noise_text_Methodology:
  "lines (new_extractor (''3.'' @ [newline] @ ''(1)'' @ [newline] @ ''some text'' @ [newline] @
      ''Methodology'')) = [''3.'', ''(1)'', ''some text'', ''Methodology'']"
  by (simp add: lines_eval)

lemma sections_3_noise_text_Methodology:
  "map_sum id sections (build_sections (new_extractor
      (''3.'' @ [newline] @ ''(1)'' @ [newline] @ ''some text'' @ [newline] @ ''Methodology''))) =
     Inr [\<lparr>node_type = Preamble_node, header = None, content = [''some text'']\<rparr>,
          \<lparr>node_type = Section_node, header = Some ''3. Methodology'', content = []\<rparr>]"
  unfolding build_sections_def lines_3_noise_text_Methodology sections_new
  by (simp add: build_step_def section_header_def classify_3_dot classify_Methodology
      classify_paren_1 classify_some_text)

lemma carries_noise_text: "list_all carries_pending [''(1)'', ''some text'']"
  by (simp add: carries_pending_def content_line_def classify_paren_1 classify_some_text)

text \<open>
  C2, as stated, fails at the subsection line: the branch for a subsection leaves the pending
  number in its slot, so a number before a subsection heading is prefixed to the next section
  heading.
\<close>

theorem pending_number_kept_at_subsection:
  "classify_line ''3.'' = Inr Section_number \<and>
   classify_line ''2.1 Setup'' = Inr Subsection \<and>
   build_step ([], \<lparr>node_type = Preamble_node, header = None, content = []\<rparr>, Some ''3.'')
       ''2.1 Setup'' =
     Inr (Some ([\<lparr>node_type = Preamble_node, header = None, content = []\<rparr>],
                \<lparr>node_type = Subsection_node, header = Some ''2.1 Setup'', content = []\<rparr>,
                Some ''3.'')) \<and>
   map_sum id sections (build_sections
      (new_extractor (''3.'' @ [newline] @ ''2.1 Setup'' @ [newline] @ ''Methodology''))) =
     Inr [\<lparr>node_type = Preamble_node, header = None, content = []\<rparr>,
          \<lparr>node_type = Subsection_node, header = Some ''2.1 Setup'', content = []\<rparr>,
          \<lparr>node_type = Section_node, header = Some ''3. Methodology'', content = []\<rparr>]"
  using build_step_subsection [OF classify_2_1_Setup, of "[]"
      "\<lparr>node_type = Preamble_node, header = None, content = []\<rparr>" "Some ''3.''"]
  by (intro conjI classify_3_dot classify_2_1_Setup sections_3_Setup_Methodology) simp

text \<open>
  C2, amended. A line labelled section number is stored in the pending slot and nothing else
  changes. At a section line the pending number and one space are put before the line to form
  the header, and the slot is cleared. At a subsection line the header is the line alone and
  the pending number stays in the slot. The number waits over any run of lines labelled noise,
  subsection, abstract, keywords or content: after the number and such a run the slot still
  holds the number, and a section line that comes next opens the node headed by the number,
  one space and the line, wherever the three stand in the input; when the input is the
  number, such a run and the section line, that node is the last one, its content is empty
  and no node before it is a section. For every input the nodes of the result are the
  preamble and one node for each section or subsection line before the references boundary,
  so no node stands for a pending number, held at the end or at the boundary; and every line
  in the content of a node is labelled abstract, keywords or content, never section number.
  The lines \<^verbatim>\<open>3.\<close> and \<^verbatim>\<open>Methodology\<close> give one section node with the header
  \<^verbatim>\<open>3. Methodology\<close>, and so do the lines \<^verbatim>\<open>3.\<close>, \<^verbatim>\<open>(1)\<close>, \<^verbatim>\<open>some text\<close>, \<^verbatim>\<open>Methodology\<close>,
  where the line of text goes to the preamble.
\<close>

theorem pending_number_lifecycle:
  "(classify_line number = Inr Section_number \<longrightarrow>
      build_step (secs, cur, pend) number = Inr (Some (secs, cur, Some number)) \<and>
      (classify_line heading = Inr Section \<longrightarrow>
         build_step (secs, cur, Some number) heading =
           Inr (Some (secs @ [cur],
             \<lparr>node_type = Section_node, header = Some (number @ '' '' @ heading),
              content = []\<rparr>, None))) \<and>
      (classify_line sub = Inr Subsection \<longrightarrow>
         build_step (secs, cur, Some number) sub =
           Inr (Some (secs @ [cur],
             \<lparr>node_type = Subsection_node, header = Some sub, content = []\<rparr>, Some number))) \<and>
      (list_all carries_pending middle \<and> classify_line heading = Inr Section \<longrightarrow>
         (\<exists>secs2 cur2.
            build_loop (secs, cur, pend) (number # middle) = Inr (secs2, cur2, Some number) \<and>
            build_loop (secs, cur, pend) (number # middle @ heading # after) =
              build_loop (secs2 @ [cur2],
                \<lparr>node_type = Section_node, header = Some (number @ '' '' @ heading),
                 content = []\<rparr>, None) after) \<and>
         (lines (new_extractor text) = before @ number # middle @ heading # after \<and>
          list_all (\<lambda>line. classify_line line \<noteq> Inr References) before \<longrightarrow>
            (\<exists>self' front c rest.
               build_sections (new_extractor text) = Inr self' \<and>
               sections self' =
                 front @ \<lparr>node_type = Section_node, header = Some (number @ '' '' @ heading),
                          content = c\<rparr> # rest \<and>
               length front = 1 + length (filter header_line (before @ middle)))) \<and>
         (lines (new_extractor text) = number # middle @ [heading] \<longrightarrow>
            (\<exists>self' front.
               build_sections (new_extractor text) = Inr self' \<and>
               sections self' =
                 front @ [\<lparr>node_type = Section_node, header = Some (number @ '' '' @ heading),
                           content = []\<rparr>] \<and>
               list_all (\<lambda>n. node_type n \<noteq> Section_node) front)))) \<and>
   (\<exists>self'. build_sections (new_extractor text) = Inr self' \<and>
      length (sections self') =
        1 + length (filter header_line (before_references (lines (new_extractor text)))) \<and>
      list_all (\<lambda>n. list_all content_line (content n)) (sections self')) \<and>
   map_sum id sections (build_sections (new_extractor (''3.'' @ [newline] @ ''Methodology''))) =
     Inr [\<lparr>node_type = Preamble_node, header = None, content = []\<rparr>,
          \<lparr>node_type = Section_node, header = Some ''3. Methodology'', content = []\<rparr>] \<and>
   map_sum id sections (build_sections (new_extractor
      (''3.'' @ [newline] @ ''(1)'' @ [newline] @ ''some text'' @ [newline] @ ''Methodology''))) =
     Inr [\<lparr>node_type = Preamble_node, header = None, content = [''some text'']\<rparr>,
          \<lparr>node_type = Section_node, header = Some ''3. Methodology'', content = []\<rparr>]"
proof (intro conjI impI)
  assume n: "classify_line number = Inr Section_number"
  then show "build_step (secs, cur, pend) number = Inr (Some (secs, cur, Some number))"
    by (rule build_step_number)
  {
    assume "classify_line heading = Inr Section"
    from build_step_section [OF this, of secs cur "Some number"] number_line_not_empty [OF n]
    show "build_step (secs, cur, Some number) heading =
        Inr (Some (secs @ [cur],
          \<lparr>node_type = Section_node, header = Some (number @ '' '' @ heading),
           content = []\<rparr>, None))"
      by (simp add: section_header_def)
  }
  {
    assume "classify_line sub = Inr Subsection"
    then show "build_step (secs, cur, Some number) sub =
        Inr (Some (secs @ [cur],
          \<lparr>node_type = Subsection_node, header = Some sub, content = []\<rparr>, Some number))"
      by (rule build_step_subsection)
  }
  {
    assume "list_all carries_pending middle \<and> classify_line heading = Inr Section"
    then have m: "list_all carries_pending middle" and h: "classify_line heading = Inr Section"
      by simp_all
    show "\<exists>secs2 cur2.
        build_loop (secs, cur, pend) (number # middle) = Inr (secs2, cur2, Some number) \<and>
        build_loop (secs, cur, pend) (number # middle @ heading # after) =
          build_loop (secs2 @ [cur2],
            \<lparr>node_type = Section_node, header = Some (number @ '' '' @ heading),
             content = []\<rparr>, None) after"
      by (rule pending_until_section [OF n m h])
    {
      assume "lines (new_extractor text) = before @ number # middle @ heading # after \<and>
          list_all (\<lambda>line. classify_line line \<noteq> Inr References) before"
      then have l: "lines (new_extractor text) = before @ number # middle @ heading # after"
        and b: "list_all (\<lambda>line. classify_line line \<noteq> Inr References) before" by simp_all
      show "\<exists>self' front c rest.
          build_sections (new_extractor text) = Inr self' \<and>
          sections self' =
            front @ \<lparr>node_type = Section_node, header = Some (number @ '' '' @ heading),
                     content = c\<rparr> # rest \<and>
          length front = 1 + length (filter header_line (before @ middle))"
        by (rule pending_until_section_result [OF n m h l b])
    }
    {
      assume l: "lines (new_extractor text) = number # middle @ [heading]"
      show "\<exists>self' front.
          build_sections (new_extractor text) = Inr self' \<and>
          sections self' =
            front @ [\<lparr>node_type = Section_node, header = Some (number @ '' '' @ heading),
                      content = []\<rparr>] \<and>
          list_all (\<lambda>n. node_type n \<noteq> Section_node) front"
        by (rule pending_until_section_single [OF n m h l])
    }
  }
next
  show "\<exists>self'. build_sections (new_extractor text) = Inr self' \<and>
      length (sections self') =
        1 + length (filter header_line (before_references (lines (new_extractor text)))) \<and>
      list_all (\<lambda>n. list_all content_line (content n)) (sections self')"
    by (rule build_sections_count)
next
  show "map_sum id sections (build_sections (new_extractor (''3.'' @ [newline] @ ''Methodology''))) =
     Inr [\<lparr>node_type = Preamble_node, header = None, content = []\<rparr>,
          \<lparr>node_type = Section_node, header = Some ''3. Methodology'', content = []\<rparr>]"
    by (rule sections_3_Methodology)
next
  show "map_sum id sections (build_sections (new_extractor
      (''3.'' @ [newline] @ ''(1)'' @ [newline] @ ''some text'' @ [newline] @ ''Methodology''))) =
     Inr [\<lparr>node_type = Preamble_node, header = None, content = [''some text'']\<rparr>,
          \<lparr>node_type = Section_node, header = Some ''3. Methodology'', content = []\<rparr>]"
    by (rule sections_3_noise_text_Methodology)
qed

theorem pending_number_lifecycle_witness:
  "classify_line ''3.'' = Inr Section_number \<and>
   classify_line ''Methodology'' = Inr Section \<and>
   classify_line ''2.1 Setup'' = Inr Subsection \<and>
   list_all carries_pending [''(1)'', ''some text''] \<and>
   lines (new_extractor (''3.'' @ [newline] @ ''(1)'' @ [newline] @ ''some text'' @ [newline] @
      ''Methodology'')) = [''3.'', ''(1)'', ''some text'', ''Methodology''] \<and>
   build_step ([], \<lparr>node_type = Preamble_node, header = None, content = []\<rparr>, None) ''3.'' =
     Inr (Some ([], \<lparr>node_type = Preamble_node, header = None, content = []\<rparr>, Some ''3.'')) \<and>
   build_step ([], \<lparr>node_type = Preamble_node, header = None, content = []\<rparr>, Some ''3.'')
       ''Methodology'' =
     Inr (Some ([\<lparr>node_type = Preamble_node, header = None, content = []\<rparr>],
                \<lparr>node_type = Section_node, header = Some ''3. Methodology'', content = []\<rparr>,
                None)) \<and>
   build_step ([], \<lparr>node_type = Preamble_node, header = None, content = []\<rparr>, Some ''3.'')
       ''2.1 Setup'' =
     Inr (Some ([\<lparr>node_type = Preamble_node, header = None, content = []\<rparr>],
                \<lparr>node_type = Subsection_node, header = Some ''2.1 Setup'', content = []\<rparr>,
                Some ''3.'')) \<and>
   (\<exists>secs2 cur2.
      build_loop ([], \<lparr>node_type = Preamble_node, header = None, content = []\<rparr>, None)
          [''3.'', ''(1)'', ''some text''] = Inr (secs2, cur2, Some ''3.'') \<and>
      build_loop ([], \<lparr>node_type = Preamble_node, header = None, content = []\<rparr>, None)
          [''3.'', ''(1)'', ''some text'', ''Methodology''] =
        Inr (secs2 @ [cur2],
          \<lparr>node_type = Section_node, header = Some ''3. Methodology'', content = []\<rparr>, None)) \<and>
   (\<exists>self' front c rest.
      build_sections (new_extractor (''3.'' @ [newline] @ ''(1)'' @ [newline] @ ''some text'' @
          [newline] @ ''Methodology'')) = Inr self' \<and>
      sections self' =
        front @ \<lparr>node_type = Section_node, header = Some ''3. Methodology'', content = c\<rparr> # rest \<and>
      length front = 1 + length (filter header_line [''(1)'', ''some text''])) \<and>
   (\<exists>self' front.
      build_sections (new_extractor (''3.'' @ [newline] @ ''(1)'' @ [newline] @ ''some text'' @
          [newline] @ ''Methodology'')) = Inr self' \<and>
      sections self' =
        front @ [\<lparr>node_type = Section_node, header = Some ''3. Methodology'', content = []\<rparr>] \<and>
      list_all (\<lambda>n. node_type n \<noteq> Section_node) front)"
proof -
  note t = pending_number_lifecycle [of "''3.''" "[]"
      "\<lparr>node_type = Preamble_node, header = None, content = []\<rparr>" None
      "''Methodology''" "''2.1 Setup''" "[''(1)'', ''some text'']" "[]"
      "''3.'' @ [newline] @ ''(1)'' @ [newline] @ ''some text'' @ [newline] @ ''Methodology''"
      "[]", THEN conjunct1]
  note u = mp [OF t classify_3_dot]
  note a = u [THEN conjunct1]
  note b = mp [OF u [THEN conjunct2, THEN conjunct1] classify_Methodology]
  note c = mp [OF u [THEN conjunct2, THEN conjunct2, THEN conjunct1] classify_2_1_Setup]
  note d = mp [OF u [THEN conjunct2, THEN conjunct2, THEN conjunct2]
      conjI [OF carries_noise_text classify_Methodology]]
  have l1: "lines (new_extractor (''3.'' @ [newline] @ ''(1)'' @ [newline] @ ''some text'' @
        [newline] @ ''Methodology'')) =
      [] @ ''3.'' # [''(1)'', ''some text''] @ ''Methodology'' # [] \<and>
      list_all (\<lambda>line. classify_line line \<noteq> Inr References) []"
    using lines_3_noise_text_Methodology by simp
  have l2: "lines (new_extractor (''3.'' @ [newline] @ ''(1)'' @ [newline] @ ''some text'' @
        [newline] @ ''Methodology'')) = ''3.'' # [''(1)'', ''some text''] @ [''Methodology'']"
    using lines_3_noise_text_Methodology by simp
  note d1 = d [THEN conjunct1]
  note d2 = mp [OF d [THEN conjunct2, THEN conjunct1] l1]
  note d3 = mp [OF d [THEN conjunct2, THEN conjunct2] l2]
  from a b c d1 d2 d3 show ?thesis
    by (intro conjI classify_3_dot classify_Methodology classify_2_1_Setup carries_noise_text
        lines_3_noise_text_Methodology) simp_all
qed

section \<open>The first stage of the normalizer\<close>

lemma count_margins_lookup:
  "lookup (count_margins frequency text_lines) k = lookup frequency k + key_count text_lines k"
proof (induction text_lines arbitrary: frequency)
  case Nil
  then show ?case by (simp add: key_count_def)
next
  case (Cons line text_lines)
  show ?case
  proof (cases "str_strip line = []")
    case True
    then show ?thesis using Cons.IH [of frequency] by (simp add: key_count_def blank_def)
  next
    case False
    let ?f = "frequency(margin_key (str_strip line) \<mapsto>
        (case frequency (margin_key (str_strip line)) of None \<Rightarrow> 0 | Some n \<Rightarrow> n) + 1)"
    have "count_margins frequency (line # text_lines) = count_margins ?f text_lines"
      using False by (simp add: Let_def)
    then have "lookup (count_margins frequency (line # text_lines)) k =
        lookup ?f k + key_count text_lines k"
      by (simp only: Cons.IH)
    also have "lookup ?f k = lookup frequency k +
        (if margin_key (str_strip line) = k then 1 else 0)"
      by (simp add: lookup_def)
    finally show ?thesis using False by (simp add: key_count_def blank_def)
  qed
qed

lemma fullmatch_digits:
  "matched (re_fullmatch (Plus digit) s) \<longleftrightarrow> s \<noteq> [] \<and> list_all is_digit s"
proof -
  have "matched (re_fullmatch (Plus digit) s) \<longleftrightarrow> length s \<in> set (ms (Plus (Atom is_digit)) s 0)"
    by (simp add: matched_def re_fullmatch_def digit_def)
  also have "\<dots> \<longleftrightarrow> s \<noteq> [] \<and> list_all is_digit s"
    unfolding set_ms_Plus_Atom by (auto simp: list_all_length)
  finally show ?thesis .
qed

lemma filter_margins_described:
  assumes "\<And>k. lookup frequency k = key_count all_lines k"
  shows "filter_margins frequency (filtered, w) text_lines =
     (filtered @ filter (margin_kept all_lines) text_lines,
      w\<lparr>page_numbers_removed := page_numbers_removed w \<or> list_ex digits_only text_lines,
        repeated_headers_removed := repeated_headers_removed w \<or>
          list_ex (\<lambda>l. \<not> blank l \<and> \<not> digits_only l \<and> repeated_margin all_lines l) text_lines\<rparr>)"
proof (induction text_lines arbitrary: filtered w)
  case Nil
  then show ?case by simp
next
  case (Cons line text_lines)
  have f: "(case frequency k of None \<Rightarrow> 0 | Some n \<Rightarrow> n) = key_count all_lines k" for k
    using assms [of k] by (simp add: lookup_def)
  show ?case
  proof (cases "str_strip line = []")
    case True
    then show ?thesis
      using Cons.IH [of filtered w] by (simp add: margin_kept_def blank_def digits_only_def)
  next
    case False
    show ?thesis
    proof (cases "matched (re_fullmatch (Plus digit) (str_strip line))")
      case True
      then have "digits_only line" by (simp add: fullmatch_digits digits_only_def)
      then show ?thesis
        using False True Cons.IH [of filtered "w\<lparr>page_numbers_removed := True\<rparr>"]
        by (simp add: margin_kept_def blank_def)
    next
      case nd: False
      then have d: "\<not> digits_only line" by (simp add: fullmatch_digits digits_only_def)
      show ?thesis
      proof (cases "repeated_margin all_lines line")
        case True
        then show ?thesis
          using False nd d Cons.IH [of filtered "w\<lparr>repeated_headers_removed := True\<rparr>"]
          by (simp add: margin_kept_def blank_def repeated_margin_def f Let_def)
      next
        case False
        then show ?thesis
          using \<open>str_strip line \<noteq> []\<close> nd d Cons.IH [of "filtered @ [line]" w]
          by (simp add: margin_kept_def blank_def repeated_margin_def f Let_def)
      qed
    qed
  qed
qed


lemmas margins_eval =
  new_preprocessor_def str_split_on_def margin_kept_def blank_def digits_only_def
  repeated_margin_def key_count_def margin_key_def re_sub_def re_sub_from.simps str_strip_def
  str_lower_def

text \<open>
  C6. In \<^verbatim>\<open>_remove_margins\<close> the lines that stay are, in their order, the lines of the input that
  are not blank, do not consist of digits only and whose key (digits removed, whitespace
  collapsed, lower case) belongs to no other non-blank line. \<^verbatim>\<open>page_numbers_removed\<close> is set
  exactly when a line of digits is met, \<^verbatim>\<open>repeated_headers_removed\<close> exactly when a line that
  is not of digits has a key that occurs more than once; the other two flags do not change.
  A line whose key occurs once is kept.
\<close>

theorem remove_margins_described:
  "cleaned_text (remove_margins self) =
     str_strip (str_join [newline]
       (filter (margin_kept (str_split_on newline (cleaned_text self)))
          (str_split_on newline (cleaned_text self)))) \<and>
   page_numbers_removed (warnings (remove_margins self)) =
     (page_numbers_removed (warnings self) \<or>
      list_ex digits_only (str_split_on newline (cleaned_text self))) \<and>
   repeated_headers_removed (warnings (remove_margins self)) =
     (repeated_headers_removed (warnings self) \<or>
      list_ex (\<lambda>l. \<not> blank l \<and> \<not> digits_only l \<and>
                  repeated_margin (str_split_on newline (cleaned_text self)) l)
        (str_split_on newline (cleaned_text self))) \<and>
   abstract_detected (warnings (remove_margins self)) = abstract_detected (warnings self) \<and>
   references_removed (warnings (remove_margins self)) = references_removed (warnings self)"
proof -
  let ?ls = "str_split_on newline (cleaned_text self)"
  have "lookup (count_margins Map.empty ?ls) k = key_count ?ls k" for k
    by (simp add: count_margins_lookup) (simp add: lookup_def)
  from filter_margins_described [of "count_margins Map.empty ?ls" ?ls "[]" "warnings self" ?ls,
      OF this]
  show ?thesis by (simp add: remove_margins_def Let_def)
qed

theorem remove_margins_described_witness:
  "cleaned_text (remove_margins (new_preprocessor
      (''ACM 2023'' @ [newline] @ ''Intro'' @ [newline] @ ''12'' @ [newline] @ ''ACM 2024''))) =
     ''Intro'' \<and>
   page_numbers_removed (warnings (remove_margins (new_preprocessor
      (''ACM 2023'' @ [newline] @ ''Intro'' @ [newline] @ ''12'' @ [newline] @ ''ACM 2024'')))) \<and>
   repeated_headers_removed (warnings (remove_margins (new_preprocessor
      (''ACM 2023'' @ [newline] @ ''Intro'' @ [newline] @ ''12'' @ [newline] @ ''ACM 2024''))))"
proof -
  let ?text = "''ACM 2023'' @ [newline] @ ''Intro'' @ [newline] @ ''12'' @ [newline] @ ''ACM 2024''"
  have c: "cleaned_text (new_preprocessor ?text) = ?text" by (simp add: new_preprocessor_def)
  have s: "str_split_on newline ?text = [''ACM 2023'', ''Intro'', ''12'', ''ACM 2024'']"
    by (simp add: str_split_on_def newline_def)
  have k: "filter (margin_kept [''ACM 2023'', ''Intro'', ''12'', ''ACM 2024''])
      [''ACM 2023'', ''Intro'', ''12'', ''ACM 2024''] = [''Intro'']"
    by (simp add: margins_eval char_eval matcher_eval)
  have p: "list_ex digits_only [''ACM 2023'', ''Intro'', ''12'', ''ACM 2024'']"
    by (simp add: margins_eval char_eval)
  have r: "list_ex (\<lambda>l. \<not> blank l \<and> \<not> digits_only l \<and>
      repeated_margin [''ACM 2023'', ''Intro'', ''12'', ''ACM 2024''] l)
      [''ACM 2023'', ''Intro'', ''12'', ''ACM 2024'']"
    by (simp add: margins_eval char_eval matcher_eval)
  have j: "str_strip (str_join [newline] [''Intro'']) = ''Intro''"
    by (simp add: str_strip_def char_eval)
  note t = remove_margins_described [of "new_preprocessor ?text", unfolded c s k j]
  from t [THEN conjunct1] t [THEN conjunct2, THEN conjunct1]
    t [THEN conjunct2, THEN conjunct2, THEN conjunct1] p r
  show ?thesis by (intro conjI) (simp_all only: simp_thms)
qed

section \<open>The second stage of the normalizer\<close>

lemma ms_nonempty_iff: "ms r s i \<noteq> [] \<longleftrightarrow> (\<exists>j. j \<in> set (ms r s i))"
  by (cases "ms r s i") auto

lemma ms_Seq_nonempty: "ms (Seq a b) s i \<noteq> [] \<longleftrightarrow> (\<exists>k\<in>set (ms a s i). ms b s k \<noteq> [])"
  unfolding ms_nonempty_iff set_ms_Seq by blast

lemma set_ms_Wordb:
  "j \<in> set (ms Wordb s i) \<longleftrightarrow> j = i \<and> ((0 < i \<and> word_at s (i - 1)) \<noteq> word_at s i)"
  by auto

lemma reads_at_first_word:
  assumes "reads_at w s i" "w \<noteq> []" "is_word (hd w)"
  shows "word_at s i"
proof -
  from assms(2) obtain c v where w: "w = c # v" by (cases w) auto
  with assms(1) have "i < length s" "lower_char (s ! i) = lower_char c"
    by (simp_all add: reads_at_Cons)
  moreover have "is_word (s ! i) = is_word (lower_char (s ! i))" by simp
  ultimately show ?thesis using assms(3) w by (simp add: word_at_def)
qed

lemma reads_at_last_word:
  assumes "reads_at w s i" "w \<noteq> []" "is_word (last w)"
  shows "word_at s (i + length w - 1)"
proof -
  let ?k = "i + length (butlast w)"
  from assms(2) have w: "butlast w @ [last w] = w" by simp
  from assms(1) have "reads_at (butlast w @ [last w]) s i" unfolding w .
  then have k: "?k < length s" "lower_char (s ! ?k) = lower_char (last w)"
    unfolding reads_at_snoc by simp_all
  have "is_word (s ! ?k)" using k(2) assms(3) by (metis is_word_lower)
  moreover have "?k = i + length w - 1" using assms(2) by (cases w) auto
  ultimately show ?thesis using k(1) by (simp add: word_at_def)
qed

lemma word_between_boundaries:
  assumes "plain_word w" "i \<le> length s"
  shows "(i \<in> set (ms Wordb s i) \<and> reads_at w s i \<and> i + length w \<in> set (ms Wordb s (i + length w)))
     \<longleftrightarrow> occurs_word w s i"
proof (cases "reads_at w s i")
  case True
  from assms(1) have w: "w \<noteq> []" "is_word (hd w)" "is_word (last w)" "map lower_char w = w"
    by (simp_all add: plain_word_def str_lower_def)
  from True have le: "i + length w \<le> length s" by (simp add: reads_at_def)
  have f: "word_at s i" by (rule reads_at_first_word [OF True w(1,2)])
  have l: "word_at s (i + length w - 1)" by (rule reads_at_last_word [OF True w(1,3)])
  have r: "str_lower (take (length w) (drop i s)) = w"
    using True w(4) by (simp add: reads_at_def str_lower_def)
  have p: "0 < i \<Longrightarrow> word_at s (i - 1) = is_word (s ! (i - 1))"
    using assms(2) by (auto simp: word_at_def)
  have q: "0 < i + length w" using w(1) by simp
  show ?thesis
    unfolding set_ms_Wordb occurs_word_def using True f l r le p q
    by (auto simp: word_at_def)
next
  case False
  from assms(1) have "map lower_char w = w" by (simp add: plain_word_def str_lower_def)
  with False have "\<not> occurs_word w s i"
    by (auto simp: reads_at_def occurs_word_def str_lower_def)
  with False show ?thesis by simp
qed

lemma ms_Seq_nonemptyE:
  assumes "ms (Seq a b) s i \<noteq> []"
  obtains k where "k \<in> set (ms a s i)" "ms b s k \<noteq> []"
  using assms unfolding ms_Seq_nonempty by blast

lemma ms_Seq_nonemptyI: "k \<in> set (ms a s i) \<Longrightarrow> ms b s k \<noteq> [] \<Longrightarrow> ms (Seq a b) s i \<noteq> []"
  unfolding ms_Seq_nonempty by blast

lemma Wordb_end: "k \<in> set (ms Wordb s i) \<Longrightarrow> k = i"
  by (simp split: if_splits)

lemma word_pattern_split:
  assumes "i \<le> length s"
  shows "ms (Seq Wordb (Seq (alts_i ws) (Seq Wordb rest))) s i \<noteq> [] \<longleftrightarrow>
      (\<exists>w\<in>set ws. i \<in> set (ms Wordb s i) \<and> reads_at w s i \<and>
          i + length w \<in> set (ms Wordb s (i + length w)) \<and> ms rest s (i + length w) \<noteq> [])"
proof
  assume "ms (Seq Wordb (Seq (alts_i ws) (Seq Wordb rest))) s i \<noteq> []"
  then obtain k where k: "k \<in> set (ms Wordb s i)"
    and r1: "ms (Seq (alts_i ws) (Seq Wordb rest)) s k \<noteq> []" by (rule ms_Seq_nonemptyE)
  from Wordb_end [OF k] have ki: "k = i" .
  from r1 obtain j where j: "j \<in> set (ms (alts_i ws) s i)"
    and r2: "ms (Seq Wordb rest) s j \<noteq> []" unfolding ki by (rule ms_Seq_nonemptyE)
  from j obtain w where w: "w \<in> set ws" "reads_at w s i" "j = i + length w"
    unfolding ms_alts_i_iff [OF assms] by blast
  from r2 obtain m where m: "m \<in> set (ms Wordb s j)" and r3: "ms rest s m \<noteq> []"
    by (rule ms_Seq_nonemptyE)
  from Wordb_end [OF m] have mj: "m = j" .
  from k ki have "i \<in> set (ms Wordb s i)" by simp
  moreover from m mj w(3) have "i + length w \<in> set (ms Wordb s (i + length w))" by simp
  moreover from r3 mj w(3) have "ms rest s (i + length w) \<noteq> []" by simp
  ultimately show "\<exists>w\<in>set ws. i \<in> set (ms Wordb s i) \<and> reads_at w s i \<and>
          i + length w \<in> set (ms Wordb s (i + length w)) \<and> ms rest s (i + length w) \<noteq> []"
    using w(1,2) by blast
next
  assume "\<exists>w\<in>set ws. i \<in> set (ms Wordb s i) \<and> reads_at w s i \<and>
          i + length w \<in> set (ms Wordb s (i + length w)) \<and> ms rest s (i + length w) \<noteq> []"
  then obtain w where w: "w \<in> set ws" "reads_at w s i" and b1: "i \<in> set (ms Wordb s i)"
    and b2: "i + length w \<in> set (ms Wordb s (i + length w))"
    and r: "ms rest s (i + length w) \<noteq> []" by blast
  have j: "i + length w \<in> set (ms (alts_i ws) s i)"
    unfolding ms_alts_i_iff [OF assms] using w by blast
  show "ms (Seq Wordb (Seq (alts_i ws) (Seq Wordb rest))) s i \<noteq> []"
    by (rule ms_Seq_nonemptyI [OF b1 ms_Seq_nonemptyI [OF j ms_Seq_nonemptyI [OF b2 r]]])
qed

lemma word_pattern_matches:
  assumes "list_all plain_word ws" "i \<le> length s"
  shows "ms (Seq Wordb (Seq (alts_i ws) Wordb)) s i \<noteq> [] \<longleftrightarrow> list_ex (\<lambda>w. occurs_word w s i) ws"
proof -
  have "ms (Seq Wordb (Seq (alts_i ws) Wordb)) s i \<noteq> [] \<longleftrightarrow>
      ms (Seq Wordb (Seq (alts_i ws) (Seq Wordb Eps))) s i \<noteq> []"
    by (simp only: ms_Seq_nonempty) simp
  also have "\<dots> \<longleftrightarrow> (\<exists>w\<in>set ws. i \<in> set (ms Wordb s i) \<and> reads_at w s i \<and>
          i + length w \<in> set (ms Wordb s (i + length w)))"
    unfolding word_pattern_split [OF assms(2)] by simp
  also have "\<dots> \<longleftrightarrow> (\<exists>w\<in>set ws. occurs_word w s i)"
    using assms(1) word_between_boundaries [OF _ assms(2)] unfolding list_all_iff by blast
  finally show ?thesis by (simp add: list_ex_iff)
qed

lemma rest_matches: "j \<le> length s \<Longrightarrow> ms (Seq (Star anychar) Eos) s j \<noteq> []"
proof -
  assume "j \<le> length s"
  then have "length s \<in> set (ms (Star anychar) s j)"
    unfolding anychar_def set_ms_Star_Atom by auto
  moreover have "ms Eos s (length s) \<noteq> []" by simp
  ultimately show ?thesis unfolding ms_Seq_nonempty by blast
qed

lemma word_tail_pattern_matches:
  assumes "list_all plain_word ws" "i \<le> length s"
  shows "ms (Seq Wordb (Seq (alts_i ws) (Seq Wordb (Seq (Star anychar) Eos)))) s i \<noteq> [] \<longleftrightarrow>
     list_ex (\<lambda>w. occurs_word w s i) ws"
proof -
  have r: "reads_at w s i \<Longrightarrow> ms (Seq (Star anychar) Eos) s (i + length w) \<noteq> []" for w
    by (rule rest_matches) (simp add: reads_at_def)
  have "ms (Seq Wordb (Seq (alts_i ws) (Seq Wordb (Seq (Star anychar) Eos)))) s i \<noteq> [] \<longleftrightarrow>
      (\<exists>w\<in>set ws. i \<in> set (ms Wordb s i) \<and> reads_at w s i \<and>
          i + length w \<in> set (ms Wordb s (i + length w)))"
    unfolding word_pattern_split [OF assms(2)] using r by blast
  also have "\<dots> \<longleftrightarrow> (\<exists>w\<in>set ws. occurs_word w s i)"
    using assms(1) word_between_boundaries [OF _ assms(2)] unfolding list_all_iff by blast
  finally show ?thesis by (simp add: list_ex_iff)
qed

lemma first_match_find:
  "map_option fst (first_match r s starts) = List.find (\<lambda>i. ms r s i \<noteq> []) starts"
  by (induction starts) (auto split: list.splits)

lemma search_first_word:
  assumes "\<And>i. i \<le> length s \<Longrightarrow> ms r s i \<noteq> [] \<longleftrightarrow> list_ex (\<lambda>w. occurs_word w s i) ws"
  shows "map_option fst (re_search r s) = first_word ws s"
  unfolding re_search_def first_word_def first_match_find
proof (rule find_cong [OF refl])
  fix i
  assume "i \<in> set [0 ..< Suc (length s)]"
  then have "i \<le> length s" by auto
  from assms [OF this] show "(ms r s i \<noteq> []) = list_ex (\<lambda>w. occurs_word w s i) ws" .
qed

lemma plain_words:
  "list_all plain_word [''abstract'', ''resumen'']"
  "list_all plain_word [''introduction'']"
  "list_all plain_word [''references'', ''bibliography'']"
  by (simp_all add: plain_word_def str_lower_def char_eval)

lemma search_abstract_word:
  "map_option fst (re_search RE_ABSTRACT_WORD s) = first_word [''abstract'', ''resumen''] s"
  unfolding RE_ABSTRACT_WORD_def
  by (rule search_first_word) (rule word_pattern_matches [OF plain_words(1)])

lemma search_introduction_word:
  "map_option fst (re_search RE_INTRODUCTION_WORD s) = first_word [''introduction''] s"
  unfolding RE_INTRODUCTION_WORD_def
  by (rule search_first_word) (rule word_pattern_matches [OF plain_words(2)])

lemma search_references_tail:
  "map_option fst (re_search RE_REFERENCES_TAIL s) = first_word [''references'', ''bibliography''] s"
  unfolding RE_REFERENCES_TAIL_def
  by (rule search_first_word) (rule word_tail_pattern_matches [OF plain_words(3)])

lemma matched_fst: "matched m \<longleftrightarrow> map_option fst m \<noteq> None"
  by (simp add: matched_def)

lemma case_start:
  "(case m of Some (start, e) \<Rightarrow> f start | None \<Rightarrow> d) =
   (case map_option fst m of Some start \<Rightarrow> f start | None \<Rightarrow> d)"
  by (cases m) auto

text \<open>
  C7. \<^verbatim>\<open>_remove_sections\<close> is the function of its description. The flag \<^verbatim>\<open>abstract_detected\<close>
  is set when \<^verbatim>\<open>abstract\<close> or \<^verbatim>\<open>resumen\<close> occurs as a whole word, in any letter case, in the text
  the stage receives, and is left as it was otherwise; the text does not change on that
  account. When \<^verbatim>\<open>introduction\<close> occurs as a whole word, the text before its first occurrence
  is dropped. When \<^verbatim>\<open>references\<close> or \<^verbatim>\<open>bibliography\<close> occurs as a whole word in what remains,
  the first occurrence and all that follows are dropped and \<^verbatim>\<open>references_removed\<close> is set;
  otherwise that flag and the text stay as they are. The stage ends by stripping the
  whitespace at both ends of the text; the other fields do not change.
\<close>

theorem remove_sections_as_described:
  "remove_sections self = remove_sections_described self"
proof -
  let ?text = "cleaned_text self"
  let ?text1 = "case first_word [''introduction''] ?text of
      Some i \<Rightarrow> drop i ?text | None \<Rightarrow> ?text"
  have a: "matched (re_search RE_ABSTRACT_WORD ?text) \<longleftrightarrow>
      first_word [''abstract'', ''resumen''] ?text \<noteq> None"
    unfolding matched_fst search_abstract_word ..
  have w: "(if matched (re_search RE_ABSTRACT_WORD ?text)
        then (warnings self)\<lparr>abstract_detected := True\<rparr> else warnings self) =
      (warnings self)\<lparr>abstract_detected := abstract_detected (warnings self) \<or>
          first_word [''abstract'', ''resumen''] ?text \<noteq> None\<rparr>"
    unfolding a by simp
  have i: "(case re_search RE_INTRODUCTION_WORD ?text of
        Some (start, e) \<Rightarrow> drop start ?text | None \<Rightarrow> ?text) = ?text1"
    unfolding case_start search_introduction_word ..
  show ?thesis
    unfolding remove_sections_def remove_sections_described_def Let_def w i
    unfolding case_start search_references_tail ..
qed


lemmas words_eval = first_word_def occurs_word_def str_lower_def char_eval

lemma first_word_Resumen:
  "first_word [''abstract'', ''resumen''] ''Resumen x Introduction y References z'' = Some 0"
  by (simp add: words_eval)

lemma first_word_Introduction:
  "first_word [''introduction''] ''Resumen x Introduction y References z'' = Some 10"
  by (simp add: words_eval)

lemma first_word_References:
  "first_word [''references'', ''bibliography''] ''Introduction y References z'' = Some 15"
  by (simp add: words_eval)

lemma strip_Introduction_y: "str_strip ''Introduction y '' = ''Introduction y''"
  by (simp add: str_strip_def char_eval)

theorem remove_sections_as_described_witness:
  "remove_sections (new_preprocessor ''Resumen x Introduction y References z'') =
     \<lparr>original_text = ''Resumen x Introduction y References z'',
      cleaned_text = ''Introduction y'',
      warnings = \<lparr>repeated_headers_removed = False, abstract_detected = True,
                  references_removed = True, page_numbers_removed = False\<rparr>\<rparr>"
proof -
  have "remove_sections_described (new_preprocessor ''Resumen x Introduction y References z'') =
     \<lparr>original_text = ''Resumen x Introduction y References z'',
      cleaned_text = ''Introduction y'',
      warnings = \<lparr>repeated_headers_removed = False, abstract_detected = True,
                  references_removed = True, page_numbers_removed = False\<rparr>\<rparr>"
    by (simp add: remove_sections_described_def new_preprocessor_def first_word_Resumen
        first_word_Introduction first_word_References strip_Introduction_y)
  then show ?thesis
    unfolding remove_sections_as_described [of "new_preprocessor ''Resumen x Introduction y References z''"] .
qed

end
